theory Spec2Isabelle
  imports Complex_Main
begin

section \<open>Data model of \<open>HeadGestureManager.js\<close>\<close>

text \<open>
  A sensor sample is a finite JavaScript number, modelled as a real: comparing, negating
  and storing such numbers is exact. The results of the feature extraction are of the
  type \<open>number\<close>, which has the other values of a JavaScript number as constructors;
  the arithmetic that computes them rounds and overflows, and is left to the engine.

  Every method of a class takes the object and returns its result together with the
  object after the call. A \<open>throw\<close> is the result \<open>Inl e\<close>; the object returned with it
  is the object as the exception leaves it.
\<close>

datatype error = WindowIsFull | WindowIsNotFull | RangeError

datatype number = Num real | NaN | PosInfinity | NegInfinity

text \<open>
  The JavaScript engine that runs the source. What the source leaves to it is a parameter
  of the model: the largest number of arguments a call accepts (a call that spreads a
  longer array, as \<open>Math.min(...a)\<close> does, throws \<open>RangeError\<close>), and the addition and
  the division of IEEE doubles.
\<close>

record engine =
  argLimit :: nat
  num_add :: "number \<Rightarrow> number \<Rightarrow> number"
  num_div :: "number \<Rightarrow> number \<Rightarrow> number"

record window =
  windowSize :: int
  sensorType :: string
  overlapSize :: int
  xAxis :: "real list"
  yAxis :: "real list"
  zAxis :: "real list"

record axis_features =
  mean_f :: number
  min_f :: number
  max_f :: number

record window_features =
  x_feat :: axis_features
  y_feat :: axis_features
  z_feat :: axis_features

record features =
  accelerometer :: window_features
  gyroscope :: window_features

record sensor_data_handler =
  accWindow :: window
  gyroWindow :: window

section \<open>Class \<open>Window\<close>\<close>

text \<open>
  The constructor: \<open>overlapSize\<close> is an optional argument (\<open>None\<close> when the caller
  leaves it out), defaulting to 0; \<open>overlapSize || 0\<close> is the identity on integers.
\<close>

definition new_Window :: "int \<Rightarrow> string \<Rightarrow> int option \<Rightarrow> window" where
  "new_Window ws st ov =
     \<lparr>windowSize = ws, sensorType = st,
      overlapSize = (case ov of None \<Rightarrow> 0 | Some v \<Rightarrow> v),
      xAxis = [], yAxis = [], zAxis = []\<rparr>"

definition getLength :: "window \<Rightarrow> nat" where
  "getLength w = length (xAxis w)"

definition getMaxLength :: "window \<Rightarrow> int" where
  "getMaxLength w = windowSize w"

definition isFull :: "window \<Rightarrow> bool" where
  "isFull w = (int (length (xAxis w)) \<ge> windowSize w)"

definition addData :: "real \<Rightarrow> real \<Rightarrow> real \<Rightarrow> window \<Rightarrow> (error + unit) \<times> window" where
  "addData vx vy vz w =
     (if isFull w then (Inl WindowIsFull, w)
      else (Inr (), w\<lparr>xAxis := xAxis w @ [vx], yAxis := yAxis w @ [vy], zAxis := zAxis w @ [vz]\<rparr>))"

text \<open>
  \<open>Array.prototype.slice(start)\<close> with an integer argument: a negative \<open>start\<close> counts
  from the end of the array, and the start is clamped to the array.
\<close>

definition slice :: "int \<Rightarrow> 'a list \<Rightarrow> 'a list" where
  "slice start vs =
     (let len = int (length vs);
          k = (if start < 0 then max (len + start) 0 else min start len)
      in drop (nat k) vs)"

definition slide :: "window \<Rightarrow> (error + unit) \<times> window" where
  "slide w =
     (if int (length (xAxis w)) < windowSize w then (Inl WindowIsNotFull, w)
      else (Inr (),
            w\<lparr>xAxis := slice (windowSize w - overlapSize w) (xAxis w),
              yAxis := slice (windowSize w - overlapSize w) (yAxis w),
              zAxis := slice (windowSize w - overlapSize w) (zAxis w)\<rparr>))"

text \<open>
  \<open>Math.min(...a)\<close> and \<open>Math.max(...a)\<close> pass every element of the array as an argument
  of its own: the call throws \<open>RangeError\<close> when the array is longer than the engine
  accepts. Otherwise the arguments are compared one after the other; without arguments
  the results are \<open>Infinity\<close> and \<open>-Infinity\<close>.
\<close>

definition Math_min :: "engine \<Rightarrow> real list \<Rightarrow> error + number" where
  "Math_min E vs =
     (if argLimit E < length vs then Inl RangeError
      else Inr (case vs of [] \<Rightarrow> PosInfinity | v # rest \<Rightarrow> Num (fold min rest v)))"

definition Math_max :: "engine \<Rightarrow> real list \<Rightarrow> error + number" where
  "Math_max E vs =
     (if argLimit E < length vs then Inl RangeError
      else Inr (case vs of [] \<Rightarrow> NegInfinity | v # rest \<Rightarrow> Num (fold max rest v)))"

text \<open>
  \<open>getAxisFeatures\<close>: the loop adds the elements to \<open>sum\<close> from the left, starting from
  0, and the mean is \<open>sum / axisLength\<close>, both in the engine's arithmetic; then come
  \<open>Math.min\<close> and \<open>Math.max\<close>, in this order, and the first that throws ends the call.
\<close>

definition getAxisFeatures :: "engine \<Rightarrow> real list \<Rightarrow> error + axis_features" where
  "getAxisFeatures E axisData =
     (let axisLength = length axisData;
          sum = fold (\<lambda>v s. num_add E s (Num v)) axisData (Num 0);
          mean = num_div E sum (Num (real axisLength))
      in case Math_min E axisData of
           Inl e \<Rightarrow> Inl e
         | Inr mn \<Rightarrow>
        (case Math_max E axisData of
           Inl e \<Rightarrow> Inl e
         | Inr mx \<Rightarrow> Inr \<lparr>mean_f = mean, min_f = mn, max_f = mx\<rparr>))"

definition nan_features :: axis_features where
  "nan_features = \<lparr>mean_f = NaN, min_f = NaN, max_f = NaN\<rparr>"

text \<open>
  \<open>extractFeatures\<close> builds the features of the axes in the order x, y, z; an exception
  of \<open>getAxisFeatures\<close> ends the call. The window is not assigned to.
\<close>

definition extractFeatures :: "engine \<Rightarrow> window \<Rightarrow> (error + window_features) \<times> window" where
  "extractFeatures E w =
     (case (if length (xAxis w) \<noteq> 0 then getAxisFeatures E (xAxis w) else Inr nan_features) of
        Inl e \<Rightarrow> Inl e
      | Inr fx \<Rightarrow>
     (case (if length (yAxis w) \<noteq> 0 then getAxisFeatures E (yAxis w) else Inr nan_features) of
        Inl e \<Rightarrow> Inl e
      | Inr fy \<Rightarrow>
     (case (if length (zAxis w) \<noteq> 0 then getAxisFeatures E (zAxis w) else Inr nan_features) of
        Inl e \<Rightarrow> Inl e
      | Inr fz \<Rightarrow> Inr \<lparr>x_feat = fx, y_feat = fy, z_feat = fz\<rparr>)),
      w)"

section \<open>Class \<open>SensorDataHandler\<close>\<close>

definition new_SensorDataHandler :: "int \<Rightarrow> int option \<Rightarrow> sensor_data_handler" where
  "new_SensorDataHandler ws ov =
     \<lparr>accWindow = new_Window ws ''accelerometer'' ov,
      gyroWindow = new_Window ws ''gyroscope'' ov\<rparr>"

text \<open>
  \<open>handleData\<close> returns \<open>Inr None\<close> for \<open>null\<close> and \<open>Inr (Some f)\<close> for the features. An
  exception of one of the calls it makes ends it and leaves the handler as the calls
  before made it: an exception of \<open>extractFeatures\<close> comes after both additions and
  before both slides.
\<close>

definition handleData ::
  "engine \<Rightarrow> real \<times> real \<times> real \<Rightarrow> real \<times> real \<times> real \<Rightarrow> sensor_data_handler \<Rightarrow>
     (error + features option) \<times> sensor_data_handler" where
  "handleData E acc gyro h =
     (case acc of (ax, ay, az) \<Rightarrow> case gyro of (gx, gy, gz) \<Rightarrow>
      (case addData ax ay az (accWindow h) of
         (Inl e, aw) \<Rightarrow> (Inl e, h\<lparr>accWindow := aw\<rparr>)
       | (Inr _, aw) \<Rightarrow>
      (case addData gx gy gz (gyroWindow h) of
         (Inl e, gw) \<Rightarrow> (Inl e, h\<lparr>accWindow := aw, gyroWindow := gw\<rparr>)
       | (Inr _, gw) \<Rightarrow>
      if isFull aw \<and> isFull gw then
        (case extractFeatures E aw of
           (Inl e, aw1) \<Rightarrow> (Inl e, h\<lparr>accWindow := aw1, gyroWindow := gw\<rparr>)
         | (Inr fa, aw1) \<Rightarrow>
        (case extractFeatures E gw of
           (Inl e, gw1) \<Rightarrow> (Inl e, h\<lparr>accWindow := aw1, gyroWindow := gw1\<rparr>)
         | (Inr fg, gw1) \<Rightarrow>
        (case slide aw1 of
           (Inl e, aw2) \<Rightarrow> (Inl e, h\<lparr>accWindow := aw2, gyroWindow := gw1\<rparr>)
         | (Inr _, aw2) \<Rightarrow>
        (case slide gw1 of
           (Inl e, gw2) \<Rightarrow> (Inl e, h\<lparr>accWindow := aw2, gyroWindow := gw2\<rparr>)
         | (Inr _, gw2) \<Rightarrow>
           (Inr (Some \<lparr>accelerometer = fa, gyroscope = fg\<rparr>),
            h\<lparr>accWindow := aw2, gyroWindow := gw2\<rparr>)))))
      else (Inr None, h\<lparr>accWindow := aw, gyroWindow := gw\<rparr>))))"

section \<open>The anomaly segmenter \<open>processDataV2\<close>\<close>

text \<open>
  The module-level constants of the segmenter are the fields of a configuration, and
  \<open>source_config\<close> holds the values the source gives them. The module-level variables
  are the fields of the state \<open>segmenter\<close>, and \<open>initial_segmenter\<close> holds their
  initial values.
\<close>

record config =
  gyroscopeYThreshold :: real
  anomalyEndThresholdLow :: real
  anomalyEndThresholdHigh :: real
  startThresholdCount :: nat
  minimumAnomalyLength :: nat
  counterThreshold :: nat

definition source_config :: config where
  "source_config =
     \<lparr>gyroscopeYThreshold = 1.5, anomalyEndThresholdLow = -1, anomalyEndThresholdHigh = 1,
      startThresholdCount = 1, minimumAnomalyLength = 20, counterThreshold = 5\<rparr>"

record segmenter =
  accSequence :: "real list"
  gyroSequence :: "real list"
  collectingData :: bool
  inThresholdCounter :: nat
  aboveThresholdCounter :: nat

definition initial_segmenter :: segmenter where
  "initial_segmenter =
     \<lparr>accSequence = [], gyroSequence = [], collectingData = False,
      inThresholdCounter = 0, aboveThresholdCounter = 0\<rparr>"

text \<open>
  What a step does besides updating the state: the two \<open>console.log\<close> calls and the
  call \<open>makePredictionV2(unknownSequence)\<close>, in the order the step makes them.
\<close>

datatype effect = LogAnomalyFound | MakePredictionV2 "real list" | LogTooShort nat

fun processDataV2 ::
  "config \<Rightarrow> real \<times> real \<times> real \<Rightarrow> real \<times> real \<times> real \<Rightarrow> segmenter \<Rightarrow>
     effect list \<times> segmenter" where
  "processDataV2 cfg (accX, accY, accZ) (gyroX, gyroY, gyroZ) s =
     (let s1 = (if \<bar>gyroY\<bar> > gyroscopeYThreshold cfg
                then s\<lparr>aboveThresholdCounter := aboveThresholdCounter s + 1\<rparr>
                else s\<lparr>aboveThresholdCounter := 0\<rparr>);
          opened = (aboveThresholdCounter s1 \<ge> startThresholdCount cfg \<and> \<not> collectingData s1);
          s2 = (if opened
                then s1\<lparr>collectingData := True, accSequence := [], gyroSequence := [],
                        inThresholdCounter := 0\<rparr>
                else s1);
          e2 = (if opened then [LogAnomalyFound] else [])
      in if collectingData s2 then
           (let s3 = s2\<lparr>gyroSequence := gyroSequence s2 @ [- gyroY],
                         accSequence := accSequence s2 @ [accX]\<rparr>;
                s4 = (if anomalyEndThresholdLow cfg \<le> gyroY \<and> gyroY \<le> anomalyEndThresholdHigh cfg
                      then s3\<lparr>inThresholdCounter := inThresholdCounter s3 + 1\<rparr>
                      else s3\<lparr>inThresholdCounter := 0\<rparr>)
            in if inThresholdCounter s4 \<ge> counterThreshold cfg then
                 (e2 @ (if length (gyroSequence s4) \<ge> minimumAnomalyLength cfg
                        then [MakePredictionV2 (gyroSequence s4 @ accSequence s4)]
                        else [LogTooShort (length (gyroSequence s4))]),
                  s4\<lparr>collectingData := False, accSequence := [], gyroSequence := []\<rparr>)
               else (e2, s4))
         else (e2, s2))"

section \<open>Running the components on a stream of samples\<close>

text \<open>
  A combined sample is the accelerometer triple and the gyroscope triple. The sensor
  callback hands each sample to the component; the functions below give the state of a
  component after a list of samples, in arrival order.
\<close>

type_synonym sample = "(real \<times> real \<times> real) \<times> (real \<times> real \<times> real)"

definition accX_of :: "sample \<Rightarrow> real" where
  "accX_of i = fst (fst i)"

definition gyroY_of :: "sample \<Rightarrow> real" where
  "gyroY_of i = fst (snd (snd i))"

definition handler_after ::
  "engine \<Rightarrow> sample list \<Rightarrow> sensor_data_handler \<Rightarrow> sensor_data_handler" where
  "handler_after E ins h = fold (\<lambda>i h'. snd (handleData E (fst i) (snd i) h')) ins h"

definition segmenter_after :: "config \<Rightarrow> sample list \<Rightarrow> segmenter \<Rightarrow> segmenter" where
  "segmenter_after cfg ins s = fold (\<lambda>i s'. snd (processDataV2 cfg (fst i) (snd i) s')) ins s"

definition effects_of :: "config \<Rightarrow> sample \<Rightarrow> segmenter \<Rightarrow> effect list" where
  "effects_of cfg i s = fst (processDataV2 cfg (fst i) (snd i) s)"

text \<open>The operations of a window, and a window after a list of them.\<close>

datatype window_op = AddData real real real | Slide | ExtractFeatures

fun apply_op :: "engine \<Rightarrow> window_op \<Rightarrow> window \<Rightarrow> window" where
  "apply_op E (AddData vx vy vz) w = snd (addData vx vy vz w)"
| "apply_op E Slide w = snd (slide w)"
| "apply_op E ExtractFeatures w = snd (extractFeatures E w)"

definition window_after :: "engine \<Rightarrow> window_op list \<Rightarrow> window \<Rightarrow> window" where
  "window_after E ops w = fold (apply_op E) ops w"

section \<open>Notions the properties are stated with\<close>

definition aboveThreshold :: "config \<Rightarrow> real \<Rightarrow> bool" where
  "aboveThreshold cfg gy = (\<bar>gy\<bar> > gyroscopeYThreshold cfg)"

definition inEndBand :: "config \<Rightarrow> real \<Rightarrow> bool" where
  "inEndBand cfg gy = (anomalyEndThresholdLow cfg \<le> gy \<and> gy \<le> anomalyEndThresholdHigh cfg)"

text \<open>The last \<open>n\<close> elements of a list, in their order.\<close>

definition last_n :: "nat \<Rightarrow> 'a list \<Rightarrow> 'a list" where
  "last_n n vs = drop (length vs - n) vs"

text \<open>The lock-step invariant of a window.\<close>

definition window_inv :: "window \<Rightarrow> bool" where
  "window_inv w =
     (length (xAxis w) = length (yAxis w) \<and> length (yAxis w) = length (zAxis w) \<and>
      int (length (xAxis w)) \<le> windowSize w)"

text \<open>
  The statistics of an axis: the engine's sum of the samples, from the left, divided by
  their number, the least and the greatest of the samples; the not-a-number triple for
  an empty axis.
\<close>

definition axis_statistics :: "engine \<Rightarrow> real list \<Rightarrow> axis_features" where
  "axis_statistics E vs =
     (if vs = [] then \<lparr>mean_f = NaN, min_f = NaN, max_f = NaN\<rparr>
      else \<lparr>mean_f = num_div E (fold (\<lambda>v s. num_add E s (Num v)) vs (Num 0))
                      (Num (real (length vs))),
            min_f = Num (Min (set vs)), max_f = Num (Max (set vs))\<rparr>)"

text \<open>The statistics of the three axes of a window.\<close>

definition window_statistics :: "engine \<Rightarrow> window \<Rightarrow> window_features" where
  "window_statistics E w =
     \<lparr>x_feat = axis_statistics E (xAxis w), y_feat = axis_statistics E (yAxis w),
      z_feat = axis_statistics E (zAxis w)\<rparr>"

text \<open>A list of \<open>addData\<close> calls, one for each sample of a list.\<close>

definition add_ops :: "(real \<times> real \<times> real) list \<Rightarrow> window_op list" where
  "add_ops vs = map (\<lambda>(vx, vy, vz). AddData vx vy vz) vs"

text \<open>
  A handler both of whose windows have capacity \<open>c\<close> and overlap \<open>v\<close> and hold \<open>l\<close>
  samples on each axis.
\<close>

definition handler_level :: "nat \<Rightarrow> nat \<Rightarrow> nat \<Rightarrow> sensor_data_handler \<Rightarrow> bool" where
  "handler_level c v l h =
     (windowSize (accWindow h) = int c \<and> overlapSize (accWindow h) = int v \<and>
      windowSize (gyroWindow h) = int c \<and> overlapSize (gyroWindow h) = int v \<and>
      length (xAxis (accWindow h)) = l \<and> length (yAxis (accWindow h)) = l \<and>
      length (zAxis (accWindow h)) = l \<and> length (xAxis (gyroWindow h)) = l \<and>
      length (yAxis (gyroWindow h)) = l \<and> length (zAxis (gyroWindow h)) = l)"

text \<open>
  The number of samples each window holds after \<open>n\<close> calls of \<open>handleData\<close> on a
  fresh handler of capacity \<open>c\<close> and overlap \<open>v\<close>.
\<close>

definition fill_level :: "nat \<Rightarrow> nat \<Rightarrow> nat \<Rightarrow> nat" where
  "fill_level c v n = (if n < c then n else v + (n - c) mod (c - v))"

text \<open>The two counters as a step leaves them, and the state a capture opens with.\<close>

definition above_next :: "config \<Rightarrow> real \<Rightarrow> segmenter \<Rightarrow> nat" where
  "above_next cfg gy s = (if aboveThreshold cfg gy then aboveThresholdCounter s + 1 else 0)"

definition band_next :: "config \<Rightarrow> real \<Rightarrow> segmenter \<Rightarrow> nat" where
  "band_next cfg gy s = (if inEndBand cfg gy then inThresholdCounter s + 1 else 0)"

definition opened :: "segmenter \<Rightarrow> segmenter" where
  "opened s = s\<lparr>collectingData := True, accSequence := [], gyroSequence := [],
                inThresholdCounter := 0\<rparr>"

text \<open>
  The number of elements at the end of a list that satisfy \<open>P\<close> one after the other,
  and a list that has \<open>n\<close> consecutive elements satisfying \<open>P\<close> somewhere.
\<close>

definition trailing_run :: "('a \<Rightarrow> bool) \<Rightarrow> 'a list \<Rightarrow> nat" where
  "trailing_run P vs = length (takeWhile P (rev vs))"

definition has_run :: "nat \<Rightarrow> ('a \<Rightarrow> bool) \<Rightarrow> 'a list \<Rightarrow> bool" where
  "has_run n P vs = (\<exists>pre run post. vs = pre @ run @ post \<and> length run = n \<and> list_all P run)"

text \<open>The two sequences a capture collects from the samples \<open>cs\<close>.\<close>

definition inverted_gyroY :: "sample list \<Rightarrow> real list" where
  "inverted_gyroY cs = map (\<lambda>i. - gyroY_of i) cs"

definition collected_accX :: "sample list \<Rightarrow> real list" where
  "collected_accX cs = map accX_of cs"

text \<open>
  The segmenter collecting after each sample of a list, computed along the list.
\<close>

fun collecting_throughout :: "config \<Rightarrow> sample list \<Rightarrow> segmenter \<Rightarrow> bool" where
  "collecting_throughout cfg [] s = True"
| "collecting_throughout cfg (i # rest) s =
     (collectingData (snd (processDataV2 cfg (fst i) (snd i) s)) \<and>
      collecting_throughout cfg rest (snd (processDataV2 cfg (fst i) (snd i) s)))"

section \<open>Properties of \<open>Window\<close>\<close>

subsection \<open>Slicing\<close>

lemma slice_keeps_last:
  "0 \<le> v \<Longrightarrow> v \<le> int (length vs) \<Longrightarrow> slice (int (length vs) - v) vs = last_n (nat v) vs"
  by (simp add: slice_def last_n_def Let_def min_def nat_diff_distrib')

lemma length_last_n_int:
  "0 \<le> v \<Longrightarrow> v \<le> int (length vs) \<Longrightarrow> int (length (last_n (nat v) vs)) = v"
  by (simp add: last_n_def)

subsection \<open>\<open>slide\<close>\<close>

text \<open>
  Claim C4. \<open>slide\<close> on a window whose overlap \<open>V\<close> lies between 0 and its capacity \<open>C\<close>
  and whose three axes hold \<open>C\<close> samples each succeeds and leaves on each axis the last
  \<open>V\<close> samples it held, in their order, so \<open>V\<close> samples (none when \<open>V = 0\<close>); nothing
  else of the window changes. \<open>slide\<close> on a window that holds fewer than \<open>C\<close> samples
  throws "Window is not full" and leaves the window as it was.
\<close>

theorem slide_full_or_not_ready:
  "(0 \<le> overlapSize w \<and> overlapSize w \<le> windowSize w \<and>
    int (length (xAxis w)) = windowSize w \<and>
    length (yAxis w) = length (xAxis w) \<and> length (zAxis w) = length (xAxis w) \<longrightarrow>
      fst (slide w) = Inr () \<and>
      snd (slide w) = w\<lparr>xAxis := last_n (nat (overlapSize w)) (xAxis w),
                        yAxis := last_n (nat (overlapSize w)) (yAxis w),
                        zAxis := last_n (nat (overlapSize w)) (zAxis w)\<rparr> \<and>
      int (length (xAxis (snd (slide w)))) = overlapSize w \<and>
      int (length (yAxis (snd (slide w)))) = overlapSize w \<and>
      int (length (zAxis (snd (slide w)))) = overlapSize w) \<and>
   (int (length (xAxis w)) < windowSize w \<longrightarrow> slide w = (Inl WindowIsNotFull, w))"
proof (intro conjI impI)
  assume h: "0 \<le> overlapSize w \<and> overlapSize w \<le> windowSize w \<and>
    int (length (xAxis w)) = windowSize w \<and>
    length (yAxis w) = length (xAxis w) \<and> length (zAxis w) = length (xAxis w)"
  then have sx: "slice (windowSize w - overlapSize w) (xAxis w) = last_n (nat (overlapSize w)) (xAxis w)"
    using slice_keeps_last [of "overlapSize w" "xAxis w"] by simp
  from h have sy: "slice (windowSize w - overlapSize w) (yAxis w) = last_n (nat (overlapSize w)) (yAxis w)"
    using slice_keeps_last [of "overlapSize w" "yAxis w"] by simp
  from h have sz: "slice (windowSize w - overlapSize w) (zAxis w) = last_n (nat (overlapSize w)) (zAxis w)"
    using slice_keeps_last [of "overlapSize w" "zAxis w"] by simp
  from h show "fst (slide w) = Inr ()" by (simp add: slide_def)
  from h show r: "snd (slide w) = w\<lparr>xAxis := last_n (nat (overlapSize w)) (xAxis w),
                        yAxis := last_n (nat (overlapSize w)) (yAxis w),
                        zAxis := last_n (nat (overlapSize w)) (zAxis w)\<rparr>"
    by (simp add: slide_def sx sy sz)
  from h show "int (length (xAxis (snd (slide w)))) = overlapSize w"
    using length_last_n_int [of "overlapSize w" "xAxis w"] by (simp add: r)
  from h show "int (length (yAxis (snd (slide w)))) = overlapSize w"
    using length_last_n_int [of "overlapSize w" "yAxis w"] by (simp add: r)
  from h show "int (length (zAxis (snd (slide w)))) = overlapSize w"
    using length_last_n_int [of "overlapSize w" "zAxis w"] by (simp add: r)
next
  assume "int (length (xAxis w)) < windowSize w"
  then show "slide w = (Inl WindowIsNotFull, w)" by (simp add: slide_def)
qed

theorem slide_full_or_not_ready_witness:
  "slide \<lparr>windowSize = 3, sensorType = ''gyroscope'', overlapSize = 1,
          xAxis = [1, 2, 3], yAxis = [4, 5, 6], zAxis = [7, 8, 9]\<rparr> =
     (Inr (), \<lparr>windowSize = 3, sensorType = ''gyroscope'', overlapSize = 1,
               xAxis = [3], yAxis = [6], zAxis = [9]\<rparr>) \<and>
   slide \<lparr>windowSize = 3, sensorType = ''gyroscope'', overlapSize = 1,
          xAxis = [1, 2], yAxis = [4, 5], zAxis = [7, 8]\<rparr> =
     (Inl WindowIsNotFull, \<lparr>windowSize = 3, sensorType = ''gyroscope'', overlapSize = 1,
          xAxis = [1, 2], yAxis = [4, 5], zAxis = [7, 8]\<rparr>)"
  using slide_full_or_not_ready [of "\<lparr>windowSize = 3, sensorType = ''gyroscope'', overlapSize = 1,
          xAxis = [1, 2, 3], yAxis = [4, 5, 6], zAxis = [7, 8, 9]\<rparr>"]
    slide_full_or_not_ready [of "\<lparr>windowSize = 3, sensorType = ''gyroscope'', overlapSize = 1,
          xAxis = [1, 2], yAxis = [4, 5], zAxis = [7, 8]\<rparr>"]
  by (simp add: last_n_def prod_eq_iff)

subsection \<open>\<open>extractFeatures\<close>\<close>

lemma Math_min_Min:
  "vs \<noteq> [] \<Longrightarrow> length vs \<le> argLimit E \<Longrightarrow> Math_min E vs = Inr (Num (Min (set vs)))"
  by (cases vs) (simp_all add: Math_min_def Min.set_eq_fold [symmetric])

lemma Math_max_Max:
  "vs \<noteq> [] \<Longrightarrow> length vs \<le> argLimit E \<Longrightarrow> Math_max E vs = Inr (Num (Max (set vs)))"
  by (cases vs) (simp_all add: Math_max_def Max.set_eq_fold [symmetric])

lemma getAxisFeatures_long: "argLimit E < length vs \<Longrightarrow> getAxisFeatures E vs = Inl RangeError"
  by (simp add: getAxisFeatures_def Math_min_def Let_def)

lemma axis_within_limit:
  assumes "length vs \<le> argLimit E"
  shows "(if length vs \<noteq> 0 then getAxisFeatures E vs else Inr nan_features) =
           Inr (axis_statistics E vs)"
proof (cases "vs = []")
  case True
  then show ?thesis by (simp add: nan_features_def axis_statistics_def)
next
  case False
  with assms show ?thesis
    by (simp add: getAxisFeatures_def axis_statistics_def Let_def Math_min_Min Math_max_Max)
qed

text \<open>
  Within the engine's limit \<open>extractFeatures\<close> returns the statistics of the three axes,
  over all the samples each holds.
\<close>

lemma extractFeatures_within_limit:
  assumes "length (xAxis w) \<le> argLimit E" and "length (yAxis w) \<le> argLimit E"
    and "length (zAxis w) \<le> argLimit E"
  shows "extractFeatures E w = (Inr (window_statistics E w), w)"
  unfolding extractFeatures_def axis_within_limit [OF assms(1)] axis_within_limit [OF assms(2)]
    axis_within_limit [OF assms(3)]
  by (simp add: window_statistics_def)

lemma extractFeatures_long_axis:
  assumes "argLimit E < length (xAxis w)"
  shows "extractFeatures E w = (Inl RangeError, w)"
proof -
  from assms have "length (xAxis w) \<noteq> 0" by auto
  with getAxisFeatures_long [OF assms] show ?thesis
    by (simp add: extractFeatures_def)
qed

lemma extractFeatures_window: "snd (extractFeatures E w) = w"
  by (simp add: extractFeatures_def)

text \<open>
  Claim C6 has \<open>extractFeatures\<close> return the mean, the least and the greatest sample
  of every axis that holds a sample. The source does so only up to the engine's
  argument limit: on a full window whose axes hold more samples, \<open>argLimit + k + 1\<close>,
  \<open>Math.min(...axisData)\<close> throws \<open>RangeError\<close>, so \<open>extractFeatures\<close> returns no
  statistics; the window is left as it was.
\<close>

theorem extractFeatures_long_axis_throws:
  "extractFeatures E
     \<lparr>windowSize = int (argLimit E + k) + 1, sensorType = st, overlapSize = 0,
      xAxis = replicate (argLimit E + k + 1) vx, yAxis = replicate (argLimit E + k + 1) vy,
      zAxis = replicate (argLimit E + k + 1) vz\<rparr> =
   (Inl RangeError,
     \<lparr>windowSize = int (argLimit E + k) + 1, sensorType = st, overlapSize = 0,
      xAxis = replicate (argLimit E + k + 1) vx, yAxis = replicate (argLimit E + k + 1) vy,
      zAxis = replicate (argLimit E + k + 1) vz\<rparr>)"
  by (rule extractFeatures_long_axis) simp

subsection \<open>\<open>addData\<close>\<close>

lemma window_after_snoc: "window_after E (ops @ [p]) w = apply_op E p (window_after E ops w)"
  by (simp add: window_after_def)

lemma addData_fields:
  "windowSize (snd (addData vx vy vz w)) = windowSize w \<and>
   overlapSize (snd (addData vx vy vz w)) = overlapSize w \<and>
   sensorType (snd (addData vx vy vz w)) = sensorType w"
  by (simp add: addData_def)

lemma addData_length:
  "length (xAxis (snd (addData vx vy vz w))) =
     (if int (length (xAxis w)) < windowSize w then length (xAxis w) + 1 else length (xAxis w))"
  by (simp add: addData_def isFull_def)

lemma add_ops_length:
  "0 \<le> C \<Longrightarrow> windowSize (window_after E (add_ops vs) (new_Window C st ov)) = C \<and>
     length (xAxis (window_after E (add_ops vs) (new_Window C st ov))) = min (length vs) (nat C)"
proof (induction vs rule: rev_induct)
  case Nil
  then show ?case by (simp add: add_ops_def window_after_def new_Window_def)
next
  case (snoc v vs)
  obtain vx vy vz where v: "v = (vx, vy, vz)" by (cases v) auto
  have step: "window_after E (add_ops (vs @ [v])) (new_Window C st ov) =
      snd (addData vx vy vz (window_after E (add_ops vs) (new_Window C st ov)))"
    by (simp add: add_ops_def v window_after_snoc)
  from snoc show ?case
    unfolding step by (auto simp: addData_fields addData_length min_def)
qed

text \<open>
  Claim C5. After \<open>n\<close> calls of \<open>addData\<close> on a fresh window of capacity \<open>C \<ge> 0\<close>, with
  no \<open>slide\<close> between them, \<open>getLength\<close> is \<open>min n C\<close>. A call on a window that holds
  fewer than \<open>C\<close> samples succeeds and appends the sample to each axis; a call on a window
  that holds \<open>C\<close> samples throws "Window is full" and leaves the window as it was.
\<close>

theorem addData_until_full:
  "(0 \<le> C \<longrightarrow>
      getLength (window_after E (add_ops vs) (new_Window C st ov)) = min (length vs) (nat C)) \<and>
   (int (getLength w) < windowSize w \<longrightarrow>
      addData vx vy vz w =
        (Inr (), w\<lparr>xAxis := xAxis w @ [vx], yAxis := yAxis w @ [vy], zAxis := zAxis w @ [vz]\<rparr>) \<and>
      getLength (snd (addData vx vy vz w)) = getLength w + 1) \<and>
   (int (getLength w) = windowSize w \<longrightarrow> addData vx vy vz w = (Inl WindowIsFull, w))"
  using add_ops_length [of C E vs st ov]
  by (simp add: getLength_def addData_def isFull_def)

theorem addData_until_full_witness:
  "\<forall>E.
     getLength (window_after E (add_ops [(1, 2, 3), (4, 5, 6), (7, 8, 9)])
       (new_Window 2 ''accelerometer'' None)) = 2 \<and>
     addData 4 5 6 \<lparr>windowSize = 2, sensorType = ''accelerometer'', overlapSize = 0,
                    xAxis = [1], yAxis = [2], zAxis = [3]\<rparr> =
       (Inr (), \<lparr>windowSize = 2, sensorType = ''accelerometer'', overlapSize = 0,
                 xAxis = [1, 4], yAxis = [2, 5], zAxis = [3, 6]\<rparr>) \<and>
     addData 7 8 9 \<lparr>windowSize = 2, sensorType = ''accelerometer'', overlapSize = 0,
                    xAxis = [1, 4], yAxis = [2, 5], zAxis = [3, 6]\<rparr> =
       (Inl WindowIsFull, \<lparr>windowSize = 2, sensorType = ''accelerometer'', overlapSize = 0,
                 xAxis = [1, 4], yAxis = [2, 5], zAxis = [3, 6]\<rparr>)"
proof
  fix E
  show "getLength (window_after E (add_ops [(1, 2, 3), (4, 5, 6), (7, 8, 9)])
       (new_Window 2 ''accelerometer'' None)) = 2 \<and>
     addData 4 5 6 \<lparr>windowSize = 2, sensorType = ''accelerometer'', overlapSize = 0,
                    xAxis = [1], yAxis = [2], zAxis = [3]\<rparr> =
       (Inr (), \<lparr>windowSize = 2, sensorType = ''accelerometer'', overlapSize = 0,
                 xAxis = [1, 4], yAxis = [2, 5], zAxis = [3, 6]\<rparr>) \<and>
     addData 7 8 9 \<lparr>windowSize = 2, sensorType = ''accelerometer'', overlapSize = 0,
                    xAxis = [1, 4], yAxis = [2, 5], zAxis = [3, 6]\<rparr> =
       (Inl WindowIsFull, \<lparr>windowSize = 2, sensorType = ''accelerometer'', overlapSize = 0,
                 xAxis = [1, 4], yAxis = [2, 5], zAxis = [3, 6]\<rparr>)"
    using addData_until_full [of 2 E "[(1, 2, 3), (4, 5, 6), (7, 8, 9)]" "''accelerometer''" None
        "\<lparr>windowSize = 2, sensorType = ''accelerometer'', overlapSize = 0,
                    xAxis = [1], yAxis = [2], zAxis = [3]\<rparr>" 4 5 6]
      addData_until_full [of 2 E "[]" "''accelerometer''" None
        "\<lparr>windowSize = 2, sensorType = ''accelerometer'', overlapSize = 0,
                    xAxis = [1, 4], yAxis = [2, 5], zAxis = [3, 6]\<rparr>" 7 8 9]
    by (simp add: getLength_def)
qed

subsection \<open>The lock-step invariant\<close>

lemma length_slice_le: "length (slice k vs) \<le> length vs"
  by (simp add: slice_def Let_def)

lemma length_slice_cong: "length vs = length us \<Longrightarrow> length (slice k vs) = length (slice k us)"
  by (simp add: slice_def Let_def)

lemma slice_is_drop: "\<exists>n. \<forall>vs::real list. length vs = l \<longrightarrow> slice k vs = drop n vs"
  by (rule exI [of _ "nat (if k < 0 then max (int l + k) 0 else min k (int l))"])
    (simp add: slice_def Let_def)

lemma window_inv_addData: "window_inv w \<Longrightarrow> window_inv (snd (addData vx vy vz w))"
  by (simp add: window_inv_def addData_def isFull_def)

lemma window_inv_slide: "window_inv w \<Longrightarrow> window_inv (snd (slide w))"
proof -
  assume inv: "window_inv w"
  let ?k = "windowSize w - overlapSize w"
  from inv have "length (slice ?k (xAxis w)) = length (slice ?k (yAxis w))"
    by (intro length_slice_cong) (simp add: window_inv_def)
  moreover from inv have "length (slice ?k (yAxis w)) = length (slice ?k (zAxis w))"
    by (intro length_slice_cong) (simp add: window_inv_def)
  moreover from inv have "int (length (slice ?k (xAxis w))) \<le> windowSize w"
    using length_slice_le [of ?k "xAxis w"] by (simp add: window_inv_def)
  ultimately show ?thesis
    using inv by (simp add: slide_def window_inv_def)
qed

lemma window_inv_apply_op: "window_inv w \<Longrightarrow> window_inv (apply_op E p w)"
  by (cases p) (simp_all add: window_inv_addData window_inv_slide extractFeatures_window)

lemma window_inv_after: "window_inv w \<Longrightarrow> window_inv (window_after E ops w)"
  unfolding window_after_def
  by (induction ops arbitrary: w) (simp_all add: window_inv_apply_op)

lemma slide_same_cut:
  assumes "window_inv w"
  shows "\<exists>n. xAxis (snd (slide w)) = drop n (xAxis w) \<and>
             yAxis (snd (slide w)) = drop n (yAxis w) \<and>
             zAxis (snd (slide w)) = drop n (zAxis w)"
proof (cases "int (length (xAxis w)) < windowSize w")
  case True
  then have "snd (slide w) = w" by (simp add: slide_def)
  then show ?thesis by (intro exI [of _ 0]) simp
next
  case False
  obtain n where n: "\<forall>vs::real list. length vs = length (xAxis w) \<longrightarrow>
      slice (windowSize w - overlapSize w) vs = drop n vs"
    using slice_is_drop by blast
  from assms have "length (yAxis w) = length (xAxis w)" "length (zAxis w) = length (xAxis w)"
    by (simp_all add: window_inv_def)
  with n False show ?thesis
    by (intro exI [of _ n]) (simp add: slide_def)
qed

text \<open>
  Claim C9. A window whose three axes have one length, at most the capacity, keeps that
  after every list of \<open>addData\<close>, \<open>slide\<close> and \<open>extractFeatures\<close> calls, failed ones
  included; a fresh window of capacity \<open>C \<ge> 0\<close> is such a window. \<open>addData\<close> appends
  the sample to all three axes or leaves the window as it was, \<open>slide\<close> drops the same
  number of leading samples from each axis, and \<open>extractFeatures\<close> changes nothing.
\<close>

theorem window_lock_step:
  assumes "window_inv w"
  shows "window_inv (window_after E ops w) \<and>
    (snd (addData vx vy vz w) = w \<or>
     snd (addData vx vy vz w) =
       w\<lparr>xAxis := xAxis w @ [vx], yAxis := yAxis w @ [vy], zAxis := zAxis w @ [vz]\<rparr>) \<and>
    (\<exists>n. xAxis (snd (slide w)) = drop n (xAxis w) \<and>
         yAxis (snd (slide w)) = drop n (yAxis w) \<and>
         zAxis (snd (slide w)) = drop n (zAxis w)) \<and>
    snd (extractFeatures E w) = w \<and>
    (0 \<le> C \<longrightarrow> window_inv (window_after E ops (new_Window C st ov)))"
proof (intro conjI impI)
  show "window_inv (window_after E ops w)"
    using assms by (rule window_inv_after)
  show "snd (addData vx vy vz w) = w \<or>
     snd (addData vx vy vz w) =
       w\<lparr>xAxis := xAxis w @ [vx], yAxis := yAxis w @ [vy], zAxis := zAxis w @ [vz]\<rparr>"
    by (simp add: addData_def)
  show "\<exists>n. xAxis (snd (slide w)) = drop n (xAxis w) \<and>
         yAxis (snd (slide w)) = drop n (yAxis w) \<and>
         zAxis (snd (slide w)) = drop n (zAxis w)"
    using assms by (rule slide_same_cut)
  show "snd (extractFeatures E w) = w"
    by (rule extractFeatures_window)
next
  assume "0 \<le> C"
  then have "window_inv (new_Window C st ov)"
    by (simp add: window_inv_def new_Window_def)
  then show "window_inv (window_after E ops (new_Window C st ov))"
    by (rule window_inv_after)
qed

theorem window_lock_step_witness:
  "\<forall>E.
     window_inv \<lparr>windowSize = 2, sensorType = ''gyroscope'', overlapSize = 1,
                 xAxis = [1], yAxis = [2], zAxis = [3]\<rparr> \<and>
     window_inv (window_after E [AddData 4 5 6, AddData 7 8 9, ExtractFeatures, Slide, Slide]
       \<lparr>windowSize = 2, sensorType = ''gyroscope'', overlapSize = 1,
        xAxis = [1], yAxis = [2], zAxis = [3]\<rparr>) \<and>
     window_after E [AddData 4 5 6, AddData 7 8 9, ExtractFeatures, Slide, Slide]
       \<lparr>windowSize = 2, sensorType = ''gyroscope'', overlapSize = 1,
        xAxis = [1], yAxis = [2], zAxis = [3]\<rparr> =
       \<lparr>windowSize = 2, sensorType = ''gyroscope'', overlapSize = 1,
        xAxis = [4], yAxis = [5], zAxis = [6]\<rparr>"
proof
  fix E
  let ?w = "\<lparr>windowSize = 2, sensorType = ''gyroscope'', overlapSize = 1,
               xAxis = [1::real], yAxis = [2::real], zAxis = [3::real]\<rparr>"
  have h: "window_inv ?w" by (simp add: window_inv_def)
  have r: "window_after E [AddData 4 5 6, AddData 7 8 9, ExtractFeatures, Slide, Slide] ?w =
     \<lparr>windowSize = 2, sensorType = ''gyroscope'', overlapSize = 1,
      xAxis = [4], yAxis = [5], zAxis = [6]\<rparr>"
    by (simp add: window_after_def addData_def isFull_def extractFeatures_window slide_def
        slice_def)
  from window_lock_step [OF h, of E "[AddData 4 5 6, AddData 7 8 9, ExtractFeatures, Slide, Slide]"]
  show "window_inv ?w \<and>
     window_inv (window_after E [AddData 4 5 6, AddData 7 8 9, ExtractFeatures, Slide, Slide] ?w) \<and>
     window_after E [AddData 4 5 6, AddData 7 8 9, ExtractFeatures, Slide, Slide] ?w =
       \<lparr>windowSize = 2, sensorType = ''gyroscope'', overlapSize = 1,
        xAxis = [4], yAxis = [5], zAxis = [6]\<rparr>"
    using h r by simp
qed

section \<open>Properties of \<open>SensorDataHandler\<close>\<close>

lemma length_slice_overlap:
  "v \<le> length vs \<Longrightarrow> length (slice (int (length vs) - int v) vs) = v"
  by (simp add: slice_def Let_def min_def nat_diff_distrib')

text \<open>
  The windows of a handler at level \<open>l < c\<close> after the two additions of \<open>handleData\<close>:
  both additions succeed and bring each axis to \<open>l + 1\<close> samples.
\<close>

lemma additions_at_level:
  assumes "handler_level c v l h" and "l < c"
  shows "addData ax ay az (accWindow h) = (Inr (), snd (addData ax ay az (accWindow h))) \<and>
         addData gx gy gz (gyroWindow h) = (Inr (), snd (addData gx gy gz (gyroWindow h))) \<and>
         handler_level c v (l + 1)
           \<lparr>accWindow = snd (addData ax ay az (accWindow h)),
            gyroWindow = snd (addData gx gy gz (gyroWindow h))\<rparr>"
  using assms by (simp add: addData_def isFull_def handler_level_def)

lemma handleData_below:
  assumes "handler_level c v l h" and "l + 1 < c"
  shows "fst (handleData E a g h) = Inr None \<and>
         handler_level c v (l + 1) (snd (handleData E a g h))"
proof -
  obtain ax ay az gx gy gz where a: "a = (ax, ay, az)" and g: "g = (gx, gy, gz)"
    by (cases a, cases g) auto
  from assms show ?thesis
    unfolding a g by (simp add: handleData_def addData_def isFull_def handler_level_def)
qed

lemma handleData_full:
  assumes "handler_level c v l h" and "l + 1 = c" and "v < c" and "c \<le> argLimit E"
  shows "fst (handleData E a g h) =
           Inr (Some \<lparr>accelerometer =
                        window_statistics E
                          (snd (addData (fst a) (fst (snd a)) (snd (snd a)) (accWindow h))),
                      gyroscope =
                        window_statistics E
                          (snd (addData (fst g) (fst (snd g)) (snd (snd g)) (gyroWindow h)))\<rparr>) \<and>
         handler_level c v v (snd (handleData E a g h))"
proof -
  obtain ax ay az gx gy gz where a: "a = (ax, ay, az)" and g: "g = (gx, gy, gz)"
    by (cases a, cases g) auto
  define aw where "aw = snd (addData ax ay az (accWindow h))"
  define gw where "gw = snd (addData gx gy gz (gyroWindow h))"
  from assms(1,2) have l: "l < c" by simp
  from additions_at_level [OF assms(1) l, of ax ay az gx gy gz]
  have add: "addData ax ay az (accWindow h) = (Inr (), aw)"
    "addData gx gy gz (gyroWindow h) = (Inr (), gw)"
    and lv: "handler_level c v c \<lparr>accWindow = aw, gyroWindow = gw\<rparr>"
    using assms(2) by (simp_all add: aw_def gw_def)
  from lv have full: "isFull aw" "isFull gw"
    by (simp_all add: handler_level_def isFull_def)
  from lv assms(4) have ea: "extractFeatures E aw = (Inr (window_statistics E aw), aw)"
    by (intro extractFeatures_within_limit) (simp_all add: handler_level_def)
  from lv assms(4) have eg: "extractFeatures E gw = (Inr (window_statistics E gw), gw)"
    by (intro extractFeatures_within_limit) (simp_all add: handler_level_def)
  have sl: "length (slice (int c - int v) vs) = v" if "length vs = c" for vs :: "real list"
  proof -
    from that assms(3) have "v \<le> length vs" by simp
    from length_slice_overlap [OF this] that show ?thesis by simp
  qed
  define aw2 where "aw2 = snd (slide aw)"
  define gw2 where "gw2 = snd (slide gw)"
  from lv have sa: "slide aw = (Inr (), aw2)" and sg: "slide gw = (Inr (), gw2)"
    by (simp_all add: aw2_def gw2_def slide_def handler_level_def)
  from lv have la: "handler_level c v v \<lparr>accWindow = aw2, gyroWindow = gw2\<rparr>"
    by (simp add: aw2_def gw2_def slide_def handler_level_def sl)
  have "handleData E a g h =
      (Inr (Some \<lparr>accelerometer = window_statistics E aw, gyroscope = window_statistics E gw\<rparr>),
       h\<lparr>accWindow := aw2, gyroWindow := gw2\<rparr>)"
    unfolding a g handleData_def
    by (simp add: add full ea eg sa sg)
  with la show ?thesis
    by (simp add: a g aw_def gw_def handler_level_def)
qed

text \<open>
  A window size above the engine's limit: the call that fills the windows throws
  \<open>RangeError\<close> after both additions and before both slides, so it leaves both windows
  full; from then on every call throws "Window is full" and changes nothing.
\<close>

lemma handleData_range:
  assumes "handler_level c v l h" and "l + 1 = c" and "argLimit E < c"
  shows "fst (handleData E a g h) = Inl RangeError \<and>
         handler_level c v c (snd (handleData E a g h))"
proof -
  obtain ax ay az gx gy gz where a: "a = (ax, ay, az)" and g: "g = (gx, gy, gz)"
    by (cases a, cases g) auto
  define aw where "aw = snd (addData ax ay az (accWindow h))"
  define gw where "gw = snd (addData gx gy gz (gyroWindow h))"
  from assms(1,2) have l: "l < c" by simp
  from additions_at_level [OF assms(1) l, of ax ay az gx gy gz]
  have add: "addData ax ay az (accWindow h) = (Inr (), aw)"
    "addData gx gy gz (gyroWindow h) = (Inr (), gw)"
    and lv: "handler_level c v c \<lparr>accWindow = aw, gyroWindow = gw\<rparr>"
    using assms(2) by (simp_all add: aw_def gw_def)
  from lv have full: "isFull aw" "isFull gw"
    by (simp_all add: handler_level_def isFull_def)
  from lv assms(3) have ea: "extractFeatures E aw = (Inl RangeError, aw)"
    by (intro extractFeatures_long_axis) (simp add: handler_level_def)
  have "handleData E a g h = (Inl RangeError, h\<lparr>accWindow := aw, gyroWindow := gw\<rparr>)"
    unfolding a g handleData_def by (simp add: add full ea)
  with lv show ?thesis
    by (simp add: handler_level_def)
qed

lemma handleData_stuck:
  assumes "handler_level c v c h"
  shows "handleData E a g h = (Inl WindowIsFull, h)"
proof -
  obtain ax ay az gx gy gz where a: "a = (ax, ay, az)" and g: "g = (gx, gy, gz)"
    by (cases a, cases g) auto
  from assms have "addData ax ay az (accWindow h) = (Inl WindowIsFull, accWindow h)"
    by (simp add: addData_def isFull_def handler_level_def)
  then show ?thesis
    unfolding a g handleData_def by simp
qed

lemma fill_level_less: "v < c \<Longrightarrow> fill_level c v n < c"
proof -
  assume vc: "v < c"
  define m where "m = (n - c) mod (c - v)"
  from vc have "m < c - v" by (simp add: m_def)
  with vc show ?thesis
    unfolding fill_level_def m_def [symmetric] by auto
qed

lemma fill_level_Suc:
  assumes "v < c"
  shows "fill_level c v (Suc n) = (if fill_level c v n + 1 = c then v else fill_level c v n + 1)"
proof (cases "Suc n < c")
  case True
  then show ?thesis by (simp add: fill_level_def)
next
  case False
  show ?thesis
  proof (cases "n < c")
    case True
    with False have "n + 1 = c" by simp
    then show ?thesis by (simp add: fill_level_def)
  next
    case nc: False
    define m where "m = (n - c) mod (c - v)"
    from nc have s: "Suc n - c = Suc (n - c)" by simp
    have lt: "m < c - v" using assms by (simp add: m_def)
    have z: "(Suc n - c) mod (c - v) = (if Suc m = c - v then 0 else Suc m)"
      unfolding m_def s by (rule mod_Suc)
    from nc have f: "fill_level c v n = v + m" by (simp add: fill_level_def m_def)
    from nc have f': "fill_level c v (Suc n) = v + (Suc n - c) mod (c - v)"
      by (simp add: fill_level_def)
    from assms lt have "(v + m + 1 = c) = (Suc m = c - v)" by auto
    then show ?thesis
      unfolding f f' z by simp
  qed
qed

lemma fill_level_full_iff:
  assumes "v < c"
  shows "(fill_level c v n + 1 = c) = (c \<le> n + 1 \<and> (n + 1 - c) mod (c - v) = 0)"
proof (cases "n < c")
  case True
  then show ?thesis by (auto simp: fill_level_def)
next
  case nc: False
  define m where "m = (n - c) mod (c - v)"
  define z where "z = (n + 1 - c) mod (c - v)"
  from nc have s: "n + 1 - c = Suc (n - c)" by simp
  have lt: "m < c - v" using assms by (simp add: m_def)
  have "z = (if Suc m = c - v then 0 else Suc m)"
    unfolding z_def m_def s by (rule mod_Suc)
  then have zm: "(z = 0) = (Suc m = c - v)" by simp
  from nc have f: "fill_level c v n = v + m" by (simp add: fill_level_def m_def)
  from nc have cn: "c \<le> n + 1" by simp
  from assms lt have "(v + m + 1 = c) = (Suc m = c - v)" by auto
  with zm f cn show ?thesis
    unfolding z_def [symmetric] by simp
qed

lemma handler_after_snoc:
  "handler_after E (pre @ [i]) h = snd (handleData E (fst i) (snd i) (handler_after E pre h))"
  by (simp add: handler_after_def)

lemma handler_level_fresh:
  "handler_level c v 0 (new_SensorDataHandler (int c) (Some (int v)))"
  by (simp add: handler_level_def new_SensorDataHandler_def new_Window_def)

text \<open>Before the windows are full for the first time, each call adds one sample.\<close>

lemma handler_level_warmup:
  assumes "length pre < c"
  shows "handler_level c v (length pre)
           (handler_after E pre (new_SensorDataHandler (int c) (Some (int v))))"
  using assms
proof (induction pre rule: rev_induct)
  case Nil
  show ?case
    using handler_level_fresh [of c v] by (simp add: handler_after_def)
next
  case (snoc i pre)
  then have lv: "handler_level c v (length pre)
      (handler_after E pre (new_SensorDataHandler (int c) (Some (int v))))"
    and lt: "length pre + 1 < c"
    by simp_all
  from handleData_below [OF lv lt, of E "fst i" "snd i"] show ?case
    by (simp add: handler_after_snoc)
qed

text \<open>With a window size within the engine's limit the windows fill and slide in a cycle.\<close>

lemma handler_level_after:
  assumes "v < c" and "c \<le> argLimit E"
  shows "handler_level c v (fill_level c v (length pre))
           (handler_after E pre (new_SensorDataHandler (int c) (Some (int v))))"
proof (induction pre rule: rev_induct)
  case Nil
  from assms show ?case
    using handler_level_fresh [of c v] by (simp add: handler_after_def fill_level_def)
next
  case (snoc i pre)
  let ?h = "handler_after E pre (new_SensorDataHandler (int c) (Some (int v)))"
  let ?l = "fill_level c v (length pre)"
  have lt: "?l < c" using assms(1) by (rule fill_level_less)
  show ?case
  proof (cases "?l + 1 = c")
    case True
    from handleData_full [OF snoc True assms]
    have "handler_level c v v (snd (handleData E (fst i) (snd i) ?h))" by simp
    with True show ?thesis
      using fill_level_Suc [OF assms(1), of "length pre"] by (simp add: handler_after_snoc)
  next
    case False
    with lt have "?l + 1 < c" by simp
    from handleData_below [OF snoc this]
    have "handler_level c v (?l + 1) (snd (handleData E (fst i) (snd i) ?h))" by simp
    with False show ?thesis
      using fill_level_Suc [OF assms(1), of "length pre"] by (simp add: handler_after_snoc)
  qed
qed

text \<open>
  The cycle of \<open>handleData\<close> for a window size within the engine's limit: call number
  \<open>length pre + 1\<close> on a fresh handler returns the statistics of the two windows as
  they are after the additions, over all the samples they hold, when the call number
  is \<open>c\<close> or exceeds it by a multiple of \<open>c - v\<close>, and \<open>null\<close> otherwise.
\<close>

lemma handleData_cycle_within_limit:
  assumes "1 \<le> c" and "v < c" and "c \<le> argLimit E"
  shows "let h = handler_after E pre (new_SensorDataHandler (int c) (Some (int v)))
         in fst (handleData E a g h) =
              (if c \<le> length pre + 1 \<and> (length pre + 1 - c) mod (c - v) = 0
               then Inr (Some \<lparr>accelerometer =
                        window_statistics E
                          (snd (addData (fst a) (fst (snd a)) (snd (snd a)) (accWindow h))),
                      gyroscope =
                        window_statistics E
                          (snd (addData (fst g) (fst (snd g)) (snd (snd g)) (gyroWindow h)))\<rparr>)
               else Inr None)"
proof -
  let ?h = "handler_after E pre (new_SensorDataHandler (int c) (Some (int v)))"
  let ?l = "fill_level c v (length pre)"
  have lv: "handler_level c v ?l ?h" using assms(2,3) by (rule handler_level_after)
  have lt: "?l < c" using assms(2) by (rule fill_level_less)
  show ?thesis
  proof (cases "?l + 1 = c")
    case True
    from handleData_full [OF lv True assms(2,3), of a g] True show ?thesis
      using fill_level_full_iff [OF assms(2), of "length pre"] by (simp add: Let_def)
  next
    case False
    with lt have "?l + 1 < c" by simp
    from handleData_below [OF lv this, of E a g] False show ?thesis
      using fill_level_full_iff [OF assms(2), of "length pre"] by (simp add: Let_def)
  qed
qed

lemma handleData_never_throws_within_limit:
  assumes "1 \<le> c" and "v < c" and "c \<le> argLimit E"
  shows "let h = handler_after E pre (new_SensorDataHandler (int c) (Some (int v)))
         in getLength (accWindow h) + 1 \<le> c \<and> getLength (gyroWindow h) + 1 \<le> c \<and>
            (\<forall>e. fst (handleData E a g h) \<noteq> Inl e)"
proof -
  let ?h = "handler_after E pre (new_SensorDataHandler (int c) (Some (int v)))"
  let ?l = "fill_level c v (length pre)"
  have lv: "handler_level c v ?l ?h" using assms(2,3) by (rule handler_level_after)
  have lt: "?l < c" using assms(2) by (rule fill_level_less)
  have len: "getLength (accWindow ?h) + 1 \<le> c \<and> getLength (gyroWindow ?h) + 1 \<le> c"
    using lv lt by (simp add: handler_level_def getLength_def)
  have res: "\<forall>e. fst (handleData E a g ?h) \<noteq> Inl e"
    using handleData_cycle_within_limit [OF assms, of pre a g] by (simp add: Let_def)
  from len res show ?thesis by (simp add: Let_def)
qed

text \<open>
  Claim C1 has the \<open>C\<close>-th call of \<open>handleData\<close> on a fresh handler return the combined
  feature summary, for every capacity \<open>C \<ge> 1\<close>. With a capacity above the engine's
  argument limit, \<open>C = argLimit + k + 1\<close> (and overlap 0), the source does not: after
  \<open>C - 1\<close> calls the \<open>C\<close>-th call throws \<open>RangeError\<close>, from \<open>Math.min(...axisData)\<close>,
  instead of returning a summary.
\<close>

theorem handleData_summary_call_throws:
  "fst (handleData E a g
     (handler_after E (replicate (argLimit E + k) i)
        (new_SensorDataHandler (int (argLimit E + k) + 1) (Some 0)))) = Inl RangeError"
proof -
  let ?c = "argLimit E + k + 1"
  have f: "new_SensorDataHandler (int (argLimit E + k) + 1) (Some 0) =
      new_SensorDataHandler (int ?c) (Some (int 0))"
    by (simp add: add.commute)
  have "length (replicate (argLimit E + k) i) < ?c" by simp
  from handler_level_warmup [OF this, of 0 E]
  have lv: "handler_level ?c 0 (argLimit E + k)
      (handler_after E (replicate (argLimit E + k) i)
         (new_SensorDataHandler (int ?c) (Some (int 0))))"
    by simp
  have "argLimit E < ?c" by simp
  from handleData_range [OF lv _ this, of a g] show ?thesis
    unfolding f by simp
qed

text \<open>
  Claim C10 has no list of \<open>handleData\<close> calls on a fresh handler ever raise "Window is
  full", each window holding at most \<open>windowSize - 1\<close> samples when a call starts. With a
  capacity above the engine's argument limit, \<open>C = argLimit + k + 1\<close> (and overlap 0),
  the source does raise it: the \<open>C\<close>-th call, which fills the windows, throws
  \<open>RangeError\<close> before the slides, so the next call starts with \<open>C\<close> samples in both
  windows and throws "Window is full".
\<close>

theorem handleData_full_after_throw:
  "fst (handleData E a g
     (handler_after E (replicate (argLimit E + k + 1) i)
        (new_SensorDataHandler (int (argLimit E + k) + 1) (Some 0)))) = Inl WindowIsFull \<and>
   getLength (accWindow (handler_after E (replicate (argLimit E + k + 1) i)
        (new_SensorDataHandler (int (argLimit E + k) + 1) (Some 0)))) = argLimit E + k + 1 \<and>
   getLength (gyroWindow (handler_after E (replicate (argLimit E + k + 1) i)
        (new_SensorDataHandler (int (argLimit E + k) + 1) (Some 0)))) = argLimit E + k + 1"
proof -
  let ?c = "argLimit E + k + 1"
  let ?fresh = "new_SensorDataHandler (int ?c) (Some (int 0))"
  have f: "new_SensorDataHandler (int (argLimit E + k) + 1) (Some 0) = ?fresh"
    by (simp add: add.commute)
  have r: "replicate (argLimit E + k + 1) i = replicate (argLimit E + k) i @ [i]"
    by (simp add: replicate_append_same)
  have "length (replicate (argLimit E + k) i) < ?c" by simp
  from handler_level_warmup [OF this, of 0 E]
  have w: "handler_level ?c 0 (argLimit E + k)
      (handler_after E (replicate (argLimit E + k) i) ?fresh)"
    by simp
  have "argLimit E < ?c" by simp
  from handleData_range [OF w _ this, of "fst i" "snd i"]
  have lv: "handler_level ?c 0 ?c (handler_after E (replicate (argLimit E + k + 1) i) ?fresh)"
    unfolding r handler_after_snoc by simp
  from handleData_stuck [OF lv, of E a g] lv show ?thesis
    unfolding f by (simp add: handler_level_def getLength_def)
qed

section \<open>Properties of the anomaly segmenter\<close>

subsection \<open>One step\<close>

lemma fold_aboveThreshold: "(gyroscopeYThreshold cfg < \<bar>gy\<bar>) = aboveThreshold cfg gy"
  by (simp add: aboveThreshold_def)

lemma fold_inEndBand:
  "(anomalyEndThresholdLow cfg \<le> gy \<and> gy \<le> anomalyEndThresholdHigh cfg) = inEndBand cfg gy"
  by (simp add: inEndBand_def)

lemma sample_split:
  obtains ax ay az gx gy gz where "(i::sample) = ((ax, ay, az), (gx, gy, gz))"
  by (cases i, cases "fst i", cases "snd i") auto

lemma step_idle_stays:
  assumes "\<not> collectingData s" and "above_next cfg (gyroY_of i) s < startThresholdCount cfg"
  shows "processDataV2 cfg (fst i) (snd i) s =
     ([], s\<lparr>aboveThresholdCounter := above_next cfg (gyroY_of i) s\<rparr>)"
proof -
  obtain ax ay az gx gy gz where i: "i = ((ax, ay, az), (gx, gy, gz))"
    by (rule sample_split)
  show ?thesis
  proof (cases "aboveThreshold cfg gy")
    case True
    with assms show ?thesis
      unfolding i by (simp add: Let_def above_next_def fold_aboveThreshold gyroY_of_def)
  next
    case False
    with assms show ?thesis
      unfolding i by (simp add: Let_def above_next_def fold_aboveThreshold gyroY_of_def)
  qed
qed


lemma step_collecting:
  assumes "collectingData s"
  shows "processDataV2 cfg (fst i) (snd i) s =
     (if counterThreshold cfg \<le> band_next cfg (gyroY_of i) s
      then (if minimumAnomalyLength cfg \<le> length (gyroSequence s) + 1
            then [MakePredictionV2 ((gyroSequence s @ [- gyroY_of i]) @ (accSequence s @ [accX_of i]))]
            else [LogTooShort (length (gyroSequence s) + 1)],
            s\<lparr>accSequence := [], gyroSequence := [], collectingData := False,
              inThresholdCounter := band_next cfg (gyroY_of i) s,
              aboveThresholdCounter := above_next cfg (gyroY_of i) s\<rparr>)
      else ([],
            s\<lparr>accSequence := accSequence s @ [accX_of i],
              gyroSequence := gyroSequence s @ [- gyroY_of i],
              inThresholdCounter := band_next cfg (gyroY_of i) s,
              aboveThresholdCounter := above_next cfg (gyroY_of i) s\<rparr>))"
proof -
  obtain ax ay az gx gy gz where i: "i = ((ax, ay, az), (gx, gy, gz))"
    by (rule sample_split)
  show ?thesis
  proof (cases "aboveThreshold cfg gy")
    case a: True
    show ?thesis
    proof (cases "inEndBand cfg gy")
      case True
      with a assms show ?thesis
        unfolding i
        by (simp add: Let_def above_next_def band_next_def fold_aboveThreshold fold_inEndBand
            accX_of_def gyroY_of_def)
    next
      case False
      with a assms show ?thesis
        unfolding i
        by (simp add: Let_def above_next_def band_next_def fold_aboveThreshold fold_inEndBand
            accX_of_def gyroY_of_def)
    qed
  next
    case a: False
    show ?thesis
    proof (cases "inEndBand cfg gy")
      case True
      with a assms show ?thesis
        unfolding i
        by (simp add: Let_def above_next_def band_next_def fold_aboveThreshold fold_inEndBand
            accX_of_def gyroY_of_def)
    next
      case False
      with a assms show ?thesis
        unfolding i
        by (simp add: Let_def above_next_def band_next_def fold_aboveThreshold fold_inEndBand
            accX_of_def gyroY_of_def)
    qed
  qed
qed


lemma step_idle_opens:
  assumes "\<not> collectingData s" and "startThresholdCount cfg \<le> above_next cfg (gyroY_of i) s"
  shows "processDataV2 cfg (fst i) (snd i) s =
     (LogAnomalyFound # fst (processDataV2 cfg (fst i) (snd i) (opened s)),
      snd (processDataV2 cfg (fst i) (snd i) (opened s)))"
proof -
  obtain ax ay az gx gy gz where i: "i = ((ax, ay, az), (gx, gy, gz))"
    by (rule sample_split)
  show ?thesis
  proof (cases "aboveThreshold cfg gy")
    case a: True
    show ?thesis
    proof (cases "inEndBand cfg gy")
      case True
      with a assms show ?thesis
        unfolding i
        by (simp add: Let_def above_next_def fold_aboveThreshold fold_inEndBand
            gyroY_of_def opened_def)
    next
      case False
      with a assms show ?thesis
        unfolding i
        by (simp add: Let_def above_next_def fold_aboveThreshold fold_inEndBand
            gyroY_of_def opened_def)
    qed
  next
    case a: False
    show ?thesis
    proof (cases "inEndBand cfg gy")
      case True
      with a assms show ?thesis
        unfolding i
        by (simp add: Let_def above_next_def fold_aboveThreshold fold_inEndBand
            gyroY_of_def opened_def)
    next
      case False
      with a assms show ?thesis
        unfolding i
        by (simp add: Let_def above_next_def fold_aboveThreshold fold_inEndBand
            gyroY_of_def opened_def)
    qed
  qed
qed

lemma opened_fields:
  "collectingData (opened s) \<and> gyroSequence (opened s) = [] \<and> accSequence (opened s) = [] \<and>
   inThresholdCounter (opened s) = 0 \<and> aboveThresholdCounter (opened s) = aboveThresholdCounter s"
  by (simp add: opened_def)

lemma above_next_opened: "above_next cfg gy (opened s) = above_next cfg gy s"
  by (simp add: above_next_def opened_def)

lemma step_above_counter:
  "aboveThresholdCounter (snd (processDataV2 cfg (fst i) (snd i) s)) = above_next cfg (gyroY_of i) s"
proof (cases "collectingData s")
  case True
  then show ?thesis by (simp add: step_collecting)
next
  case idle: False
  show ?thesis
  proof (cases "startThresholdCount cfg \<le> above_next cfg (gyroY_of i) s")
    case True
    have "collectingData (opened s)" by (simp add: opened_fields)
    then show ?thesis
      by (simp add: step_idle_opens [OF idle True] step_collecting above_next_opened)
  next
    case False
    then show ?thesis by (simp add: step_idle_stays [OF idle])
  qed
qed

lemma segmenter_after_snoc:
  "segmenter_after cfg (pre @ [i]) s =
     snd (processDataV2 cfg (fst i) (snd i) (segmenter_after cfg pre s))"
  by (simp add: segmenter_after_def)

lemma segmenter_after_Cons:
  "segmenter_after cfg (i # rest) s =
     segmenter_after cfg rest (snd (processDataV2 cfg (fst i) (snd i) s))"
  by (simp add: segmenter_after_def)

lemma segmenter_after_Nil: "segmenter_after cfg [] s = s"
  by (simp add: segmenter_after_def)

lemma opens_iff_logged:
  assumes "\<not> collectingData s"
  shows "(LogAnomalyFound \<in> set (effects_of cfg i s)) =
         (startThresholdCount cfg \<le> above_next cfg (gyroY_of i) s)"
proof (cases "startThresholdCount cfg \<le> above_next cfg (gyroY_of i) s")
  case True
  then show ?thesis by (simp add: effects_of_def step_idle_opens [OF assms])
next
  case False
  then show ?thesis by (simp add: effects_of_def step_idle_stays [OF assms])
qed

lemma after_opening:
  assumes "\<not> collectingData s" and "LogAnomalyFound \<in> set (effects_of cfg i s)"
  shows "segmenter_after cfg (i # rest) s = segmenter_after cfg (i # rest) (opened s)"
proof -
  from assms have "startThresholdCount cfg \<le> above_next cfg (gyroY_of i) s"
    by (simp add: opens_iff_logged)
  from step_idle_opens [OF assms(1) this] show ?thesis
    by (simp add: segmenter_after_Cons)
qed

subsection \<open>A capture\<close>

lemma trailing_run_snoc:
  "trailing_run P (vs @ [v]) = (if P v then trailing_run P vs + 1 else 0)"
  by (simp add: trailing_run_def)

lemma band_next_trailing:
  "inThresholdCounter t = trailing_run (\<lambda>i. inEndBand cfg (gyroY_of i)) pre \<Longrightarrow>
   band_next cfg (gyroY_of i) t = trailing_run (\<lambda>i. inEndBand cfg (gyroY_of i)) (pre @ [i])"
  by (simp add: band_next_def trailing_run_snoc)

lemma step_collecting_closed:
  assumes "collectingData t" and "\<not> collectingData (snd (processDataV2 cfg (fst i) (snd i) t))"
  shows "counterThreshold cfg \<le> band_next cfg (gyroY_of i) t \<and>
         fst (processDataV2 cfg (fst i) (snd i) t) =
           (if minimumAnomalyLength cfg \<le> length (gyroSequence t) + 1
            then [MakePredictionV2 ((gyroSequence t @ [- gyroY_of i]) @ (accSequence t @ [accX_of i]))]
            else [LogTooShort (length (gyroSequence t) + 1)])"
proof (cases "counterThreshold cfg \<le> band_next cfg (gyroY_of i) t")
  case True
  then show ?thesis by (simp add: step_collecting [OF assms(1)])
next
  case False
  with assms show ?thesis by (simp add: step_collecting [OF assms(1)])
qed

lemma step_collecting_open:
  assumes "collectingData t" and "collectingData (snd (processDataV2 cfg (fst i) (snd i) t))"
  shows "band_next cfg (gyroY_of i) t < counterThreshold cfg \<and>
         processDataV2 cfg (fst i) (snd i) t =
           ([], t\<lparr>accSequence := accSequence t @ [accX_of i],
                  gyroSequence := gyroSequence t @ [- gyroY_of i],
                  inThresholdCounter := band_next cfg (gyroY_of i) t,
                  aboveThresholdCounter := above_next cfg (gyroY_of i) t\<rparr>)"
proof (cases "counterThreshold cfg \<le> band_next cfg (gyroY_of i) t")
  case True
  with assms show ?thesis by (simp add: step_collecting [OF assms(1)])
next
  case False
  then show ?thesis by (simp add: step_collecting [OF assms(1)])
qed

text \<open>
  A capture in progress: from the state a capture opens with, as long as every step
  leaves the segmenter collecting, the sequences are the samples fed and the end-band
  counter is the run of in-band samples at the end of them.
\<close>

lemma capture_prefix:
  assumes "\<forall>k. 0 < k \<and> k \<le> length xs \<longrightarrow>
             collectingData (segmenter_after cfg (take k xs) (opened s))"
  shows "collectingData (segmenter_after cfg xs (opened s)) \<and>
         gyroSequence (segmenter_after cfg xs (opened s)) = inverted_gyroY xs \<and>
         accSequence (segmenter_after cfg xs (opened s)) = collected_accX xs \<and>
         inThresholdCounter (segmenter_after cfg xs (opened s)) =
           trailing_run (\<lambda>i. inEndBand cfg (gyroY_of i)) xs"
  using assms
proof (induction xs rule: rev_induct)
  case Nil
  show ?case
    by (simp add: segmenter_after_Nil opened_fields inverted_gyroY_def collected_accX_def
        trailing_run_def)
next
  case (snoc i xs)
  let ?t = "segmenter_after cfg xs (opened s)"
  have "\<forall>k. 0 < k \<and> k \<le> length xs \<longrightarrow>
      collectingData (segmenter_after cfg (take k xs) (opened s))"
  proof (intro allI impI)
    fix k assume k: "0 < k \<and> k \<le> length xs"
    then have "0 < k \<and> k \<le> length (xs @ [i])" by simp
    with snoc.prems have "collectingData (segmenter_after cfg (take k (xs @ [i])) (opened s))"
      by blast
    with k show "collectingData (segmenter_after cfg (take k xs) (opened s))" by simp
  qed
  from snoc.IH [OF this] have t: "collectingData ?t" "gyroSequence ?t = inverted_gyroY xs"
    "accSequence ?t = collected_accX xs"
    "inThresholdCounter ?t = trailing_run (\<lambda>i. inEndBand cfg (gyroY_of i)) xs"
    by simp_all
  have "0 < length (xs @ [i]) \<and> length (xs @ [i]) \<le> length (xs @ [i])" by simp
  with snoc.prems
  have "collectingData (segmenter_after cfg (take (length (xs @ [i])) (xs @ [i])) (opened s))"
    by blast
  then have c: "collectingData (snd (processDataV2 cfg (fst i) (snd i) ?t))"
    by (simp add: segmenter_after_snoc)
  from step_collecting_open [OF t(1) c]
  have st: "segmenter_after cfg (xs @ [i]) (opened s) =
      ?t\<lparr>accSequence := accSequence ?t @ [accX_of i],
         gyroSequence := gyroSequence ?t @ [- gyroY_of i],
         inThresholdCounter := band_next cfg (gyroY_of i) ?t,
         aboveThresholdCounter := above_next cfg (gyroY_of i) ?t\<rparr>"
    by (simp add: segmenter_after_snoc)
  show ?case
    unfolding st using t band_next_trailing [OF t(4), of i]
    by (simp add: inverted_gyroY_def collected_accX_def)
qed

text \<open>
  A capture seen from the idle state: the samples \<open>pre @ [i]\<close>, the first of which opens
  the capture, with the segmenter collecting after each sample of \<open>pre\<close>.
\<close>

lemma capture_from_idle:
  assumes idle: "\<not> collectingData s"
    and opens: "LogAnomalyFound \<in> set (effects_of cfg (hd (pre @ [i])) s)"
    and stays: "\<forall>k. 0 < k \<and> k \<le> length pre \<longrightarrow>
                  collectingData (segmenter_after cfg (take k pre) s)"
  shows "processDataV2 cfg (fst i) (snd i) (segmenter_after cfg pre s) =
           ((if pre = [] then [LogAnomalyFound] else []) @
              fst (processDataV2 cfg (fst i) (snd i) (segmenter_after cfg pre (opened s))),
            snd (processDataV2 cfg (fst i) (snd i) (segmenter_after cfg pre (opened s)))) \<and>
         collectingData (segmenter_after cfg pre (opened s)) \<and>
         gyroSequence (segmenter_after cfg pre (opened s)) = inverted_gyroY pre \<and>
         accSequence (segmenter_after cfg pre (opened s)) = collected_accX pre \<and>
         inThresholdCounter (segmenter_after cfg pre (opened s)) =
           trailing_run (\<lambda>i. inEndBand cfg (gyroY_of i)) pre"
proof (cases pre)
  case Nil
  from opens Nil have "startThresholdCount cfg \<le> above_next cfg (gyroY_of i) s"
    using opens_iff_logged [OF idle, of cfg i] by simp
  from step_idle_opens [OF idle this] Nil show ?thesis
    by (simp add: segmenter_after_Nil opened_fields inverted_gyroY_def collected_accX_def
        trailing_run_def)
next
  case (Cons p rest)
  with opens have op: "LogAnomalyFound \<in> set (effects_of cfg p s)" by simp
  have same: "segmenter_after cfg (take k pre) s = segmenter_after cfg (take k pre) (opened s)"
    if "0 < k" for k
  proof -
    from that Cons have "take k pre = p # take (k - 1) rest"
      by (simp add: take_Cons')
    then show ?thesis using after_opening [OF idle op] by simp
  qed
  have "\<forall>k. 0 < k \<and> k \<le> length pre \<longrightarrow>
      collectingData (segmenter_after cfg (take k pre) (opened s))"
    using stays same by simp
  from capture_prefix [OF this]
  have t: "collectingData (segmenter_after cfg pre (opened s)) \<and>
         gyroSequence (segmenter_after cfg pre (opened s)) = inverted_gyroY pre \<and>
         accSequence (segmenter_after cfg pre (opened s)) = collected_accX pre \<and>
         inThresholdCounter (segmenter_after cfg pre (opened s)) =
           trailing_run (\<lambda>i. inEndBand cfg (gyroY_of i)) pre" .
  from Cons have "0 < length pre" by simp
  from same [OF this] have "segmenter_after cfg pre s = segmenter_after cfg pre (opened s)"
    by simp
  with t Cons show ?thesis by simp
qed

lemma capture_step:
  assumes idle: "\<not> collectingData s"
    and opens: "LogAnomalyFound \<in> set (effects_of cfg (hd cs) s)"
    and stays: "\<forall>k. 0 < k \<and> k < length cs \<longrightarrow>
                  collectingData (segmenter_after cfg (take k cs) s)"
    and k: "k < length cs"
  shows "processDataV2 cfg (fst (cs ! k)) (snd (cs ! k)) (segmenter_after cfg (take k cs) s) =
           ((if k = 0 then [LogAnomalyFound] else []) @
              fst (processDataV2 cfg (fst (cs ! k)) (snd (cs ! k))
                     (segmenter_after cfg (take k cs) (opened s))),
            snd (processDataV2 cfg (fst (cs ! k)) (snd (cs ! k))
                   (segmenter_after cfg (take k cs) (opened s)))) \<and>
         collectingData (segmenter_after cfg (take k cs) (opened s)) \<and>
         gyroSequence (segmenter_after cfg (take k cs) (opened s)) = inverted_gyroY (take k cs) \<and>
         accSequence (segmenter_after cfg (take k cs) (opened s)) = collected_accX (take k cs) \<and>
         inThresholdCounter (segmenter_after cfg (take k cs) (opened s)) =
           trailing_run (\<lambda>i. inEndBand cfg (gyroY_of i)) (take k cs)"
proof -
  from k have hd: "hd (take k cs @ [cs ! k]) = hd cs"
    by (cases cs; cases k) simp_all
  have st: "\<forall>j. 0 < j \<and> j \<le> length (take k cs) \<longrightarrow>
      collectingData (segmenter_after cfg (take j (take k cs)) s)"
  proof (intro allI impI)
    fix j assume j: "0 < j \<and> j \<le> length (take k cs)"
    with k have "0 < j \<and> j < length cs" by simp
    with stays have "collectingData (segmenter_after cfg (take j cs) s)" by blast
    moreover from j k have "take j (take k cs) = take j cs" by (simp add: min_absorb1)
    ultimately show "collectingData (segmenter_after cfg (take j (take k cs)) s)" by simp
  qed
  from opens hd have op: "LogAnomalyFound \<in> set (effects_of cfg (hd (take k cs @ [cs ! k])) s)"
    by simp
  from k have e: "(take k cs = []) = (k = 0)" by (cases cs) auto
  from capture_from_idle [OF idle op st] show ?thesis
    unfolding e .
qed

lemma collecting_throughout_prefixes:
  "collecting_throughout cfg xs s \<Longrightarrow> 0 < k \<Longrightarrow> k \<le> length xs \<Longrightarrow>
     collectingData (segmenter_after cfg (take k xs) s)"
proof (induction xs arbitrary: s k)
  case Nil
  then show ?case by simp
next
  case (Cons i rest)
  show ?case
  proof (cases "k = 1")
    case True
    with Cons.prems show ?thesis
      by (simp add: segmenter_after_Cons segmenter_after_Nil)
  next
    case False
    with Cons.prems have k: "0 < k - 1" "k - 1 \<le> length rest" by simp_all
    from Cons.prems have "collecting_throughout cfg rest (snd (processDataV2 cfg (fst i) (snd i) s))"
      by simp
    from Cons.IH [OF this k] Cons.prems(2) show ?thesis
      by (simp add: take_Cons' segmenter_after_Cons)
  qed
qed

lemma stays_from_throughout:
  assumes "collecting_throughout cfg (butlast cs) s"
  shows "\<forall>k. 0 < k \<and> k < length cs \<longrightarrow> collectingData (segmenter_after cfg (take k cs) s)"
proof (intro allI impI)
  fix k assume k: "0 < k \<and> k < length cs"
  then have "take k (butlast cs) = take k cs" by (simp add: take_butlast)
  moreover from k have "k \<le> length (butlast cs)" by auto
  ultimately show "collectingData (segmenter_after cfg (take k cs) s)"
    using collecting_throughout_prefixes [OF assms, of k] k by simp
qed

text \<open>
  Claim C2. Take a capture: an idle segmenter, and samples \<open>cs\<close> the first of which
  opens a capture that stays open after every sample but the last and is closed by the
  last. If \<open>cs\<close> has at least \<open>minimumAnomalyLength\<close> samples, the closing step calls
  \<open>makePredictionV2\<close> once, with the negated gyroscope-Y values of \<open>cs\<close> in arrival
  order followed by the accelerometer-X values of \<open>cs\<close> in arrival order, a sequence
  of \<open>2 * length cs\<close> values; if \<open>cs\<close> is shorter, the closing step only logs the
  short capture. No earlier step of the capture calls \<open>makePredictionV2\<close>.
\<close>

theorem capture_emission:
  assumes idle: "\<not> collectingData s"
    and nonempty: "cs \<noteq> []"
    and opens: "LogAnomalyFound \<in> set (effects_of cfg (hd cs) s)"
    and stays: "\<forall>k. 0 < k \<and> k < length cs \<longrightarrow>
                  collectingData (segmenter_after cfg (take k cs) s)"
    and closes: "\<not> collectingData (segmenter_after cfg cs s)"
  shows "effects_of cfg (last cs) (segmenter_after cfg (butlast cs) s) =
           (if length cs = 1 then [LogAnomalyFound] else []) @
           (if minimumAnomalyLength cfg \<le> length cs
            then [MakePredictionV2 (inverted_gyroY cs @ collected_accX cs)]
            else [LogTooShort (length cs)]) \<and>
         length (inverted_gyroY cs @ collected_accX cs) = 2 * length cs \<and>
         (\<forall>k q. k < length cs - 1 \<longrightarrow>
            MakePredictionV2 q \<notin>
              set (effects_of cfg (cs ! k) (segmenter_after cfg (take k cs) s)))"
proof (intro conjI allI impI)
  let ?k = "length cs - 1"
  let ?t = "segmenter_after cfg (take ?k cs) (opened s)"
  from nonempty have k: "?k < length cs" by simp
  from nonempty have bl: "take ?k cs = butlast cs" and la: "cs ! ?k = last cs"
    by (simp_all add: butlast_conv_take last_conv_nth)
  from nonempty have cs: "cs = butlast cs @ [last cs]" by simp
  note c = capture_step [OF idle opens stays k, unfolded bl la]
  have "segmenter_after cfg cs s =
      snd (processDataV2 cfg (fst (last cs)) (snd (last cs)) (segmenter_after cfg (butlast cs) s))"
    using segmenter_after_snoc [of cfg "butlast cs" "last cs" s] cs by simp
  with closes c
  have "\<not> collectingData (snd (processDataV2 cfg (fst (last cs)) (snd (last cs))
      (segmenter_after cfg (butlast cs) (opened s))))"
    by simp
  from step_collecting_closed [OF _ this] c
  have f: "fst (processDataV2 cfg (fst (last cs)) (snd (last cs))
                (segmenter_after cfg (butlast cs) (opened s))) =
      (if minimumAnomalyLength cfg \<le> length (butlast cs) + 1
       then [MakePredictionV2 ((inverted_gyroY (butlast cs) @ [- gyroY_of (last cs)]) @
                               (collected_accX (butlast cs) @ [accX_of (last cs)]))]
       else [LogTooShort (length (butlast cs) + 1)])"
    by (simp add: inverted_gyroY_def collected_accX_def)
  have g: "inverted_gyroY (butlast cs) @ [- gyroY_of (last cs)] = inverted_gyroY cs"
    using cs by (metis (no_types, lifting) inverted_gyroY_def list.simps(8,9) map_append)
  have a: "collected_accX (butlast cs) @ [accX_of (last cs)] = collected_accX cs"
    using cs by (metis (no_types, lifting) collected_accX_def list.simps(8,9) map_append)
  from nonempty have l: "length (butlast cs) + 1 = length cs" by simp
  from nonempty have o: "(?k = 0) = (length cs = 1)" by (cases cs) auto
  from c f show "effects_of cfg (last cs) (segmenter_after cfg (butlast cs) s) =
           (if length cs = 1 then [LogAnomalyFound] else []) @
           (if minimumAnomalyLength cfg \<le> length cs
            then [MakePredictionV2 (inverted_gyroY cs @ collected_accX cs)]
            else [LogTooShort (length cs)])"
    unfolding g a l o effects_of_def by simp
  show "length (inverted_gyroY cs @ collected_accX cs) = 2 * length cs"
    by (simp add: inverted_gyroY_def collected_accX_def)
next
  fix k q assume k: "k < length cs - 1"
  then have k': "k < length cs" and k1: "0 < Suc k \<and> Suc k < length cs" by simp_all
  note c = capture_step [OF idle opens stays k']
  from k' have "segmenter_after cfg (take (Suc k) cs) s =
      snd (processDataV2 cfg (fst (cs ! k)) (snd (cs ! k)) (segmenter_after cfg (take k cs) s))"
    by (simp add: take_Suc_conv_app_nth segmenter_after_snoc)
  moreover from stays k1 have "collectingData (segmenter_after cfg (take (Suc k) cs) s)"
    by blast
  ultimately have "collectingData (snd (processDataV2 cfg (fst (cs ! k)) (snd (cs ! k))
      (segmenter_after cfg (take k cs) (opened s))))"
    using c by simp
  from step_collecting_open [OF _ this] c
  have "fst (processDataV2 cfg (fst (cs ! k)) (snd (cs ! k))
      (segmenter_after cfg (take k cs) (opened s))) = []"
    by simp
  with c show "MakePredictionV2 q \<notin>
      set (effects_of cfg (cs ! k) (segmenter_after cfg (take k cs) s))"
    by (simp add: effects_of_def)
qed

theorem capture_emission_witness:
  "\<not> collectingData initial_segmenter \<and>
   \<not> collectingData (segmenter_after source_config
      [((1, 0, 0), (0, 2, 0)), ((1, 0, 0), (0, 2, 0)), ((1, 0, 0), (0, 2, 0)),
       ((1, 0, 0), (0, 2, 0)), ((1, 0, 0), (0, 2, 0)), ((1, 0, 0), (0, 2, 0)),
       ((1, 0, 0), (0, 2, 0)), ((1, 0, 0), (0, 2, 0)), ((1, 0, 0), (0, 2, 0)),
       ((1, 0, 0), (0, 2, 0)), ((1, 0, 0), (0, 2, 0)), ((1, 0, 0), (0, 2, 0)),
       ((1, 0, 0), (0, 2, 0)), ((1, 0, 0), (0, 2, 0)), ((1, 0, 0), (0, 2, 0)),
       ((3, 0, 0), (0, 1/2, 0)), ((3, 0, 0), (0, 1/2, 0)), ((3, 0, 0), (0, 1/2, 0)),
       ((3, 0, 0), (0, 1/2, 0)), ((3, 0, 0), (0, 1/2, 0))]
      initial_segmenter) \<and>
   effects_of source_config ((3, 0, 0), (0, 1/2, 0))
     (segmenter_after source_config
      [((1, 0, 0), (0, 2, 0)), ((1, 0, 0), (0, 2, 0)), ((1, 0, 0), (0, 2, 0)),
       ((1, 0, 0), (0, 2, 0)), ((1, 0, 0), (0, 2, 0)), ((1, 0, 0), (0, 2, 0)),
       ((1, 0, 0), (0, 2, 0)), ((1, 0, 0), (0, 2, 0)), ((1, 0, 0), (0, 2, 0)),
       ((1, 0, 0), (0, 2, 0)), ((1, 0, 0), (0, 2, 0)), ((1, 0, 0), (0, 2, 0)),
       ((1, 0, 0), (0, 2, 0)), ((1, 0, 0), (0, 2, 0)), ((1, 0, 0), (0, 2, 0)),
       ((3, 0, 0), (0, 1/2, 0)), ((3, 0, 0), (0, 1/2, 0)), ((3, 0, 0), (0, 1/2, 0)),
       ((3, 0, 0), (0, 1/2, 0))]
      initial_segmenter) =
     [MakePredictionV2
        [-2, -2, -2, -2, -2, -2, -2, -2, -2, -2, -2, -2, -2, -2, -2, -1/2, -1/2, -1/2,
         -1/2, -1/2, 1, 1, 1, 1, 1, 1, 1, 1, 1, 1, 1, 1, 1, 1, 1, 3, 3, 3, 3, 3]]"
proof -
  let ?cs = "[((1, 0, 0), (0, 2, 0)), ((1, 0, 0), (0, 2, 0)), ((1, 0, 0), (0, 2, 0)),
       ((1, 0, 0), (0, 2, 0)), ((1, 0, 0), (0, 2, 0)), ((1, 0, 0), (0, 2, 0)),
       ((1, 0, 0), (0, 2, 0)), ((1, 0, 0), (0, 2, 0)), ((1, 0, 0), (0, 2, 0)),
       ((1, 0, 0), (0, 2, 0)), ((1, 0, 0), (0, 2, 0)), ((1, 0, 0), (0, 2, 0)),
       ((1, 0, 0), (0, 2, 0)), ((1, 0, 0), (0, 2, 0)), ((1, 0, 0), (0, 2, 0)),
       ((3, 0, 0), (0, 1/2, 0)), ((3, 0, 0), (0, 1/2, 0)), ((3, 0, 0), (0, 1/2, 0)),
       ((3, 0, 0), (0, 1/2, 0)), ((3, 0, 0), (0, 1/2, 0))] :: sample list"
  have idle: "\<not> collectingData initial_segmenter"
    by (simp add: initial_segmenter_def)
  have nonempty: "?cs \<noteq> []" by simp
  have opens: "LogAnomalyFound \<in> set (effects_of source_config (hd ?cs) initial_segmenter)"
    by (simp add: effects_of_def source_config_def initial_segmenter_def)
  have "collecting_throughout source_config (butlast ?cs) initial_segmenter"
    by (simp add: source_config_def initial_segmenter_def)
  then have stays: "\<forall>k. 0 < k \<and> k < length ?cs \<longrightarrow>
      collectingData (segmenter_after source_config (take k ?cs) initial_segmenter)"
    by (rule stays_from_throughout)
  have closes: "\<not> collectingData (segmenter_after source_config ?cs initial_segmenter)"
    by (simp add: segmenter_after_def source_config_def initial_segmenter_def)
  have cfg: "minimumAnomalyLength source_config = 20"
    by (simp add: source_config_def)
  from capture_emission [OF idle nonempty opens stays closes] idle closes
  show ?thesis
    by (simp add: cfg inverted_gyroY_def collected_accX_def accX_of_def gyroY_of_def)
qed

subsection \<open>The two counters\<close>

lemma step_band_counter:
  "inThresholdCounter (snd (processDataV2 cfg (fst i) (snd i) s)) =
     (if collectingData s then band_next cfg (gyroY_of i) s
      else if startThresholdCount cfg \<le> above_next cfg (gyroY_of i) s
           then band_next cfg (gyroY_of i) (opened s)
           else inThresholdCounter s)"
proof (cases "collectingData s")
  case True
  then show ?thesis by (simp add: step_collecting)
next
  case idle: False
  show ?thesis
  proof (cases "startThresholdCount cfg \<le> above_next cfg (gyroY_of i) s")
    case True
    have "collectingData (opened s)" by (simp add: opened_fields)
    with idle True show ?thesis
      by (simp add: step_idle_opens [OF idle True] step_collecting)
  next
    case False
    with idle show ?thesis by (simp add: step_idle_stays [OF idle])
  qed
qed

text \<open>
  Claim C7 says that every step increments or resets the end-band counter, whatever the
  state. The source updates \<open>inThresholdCounter\<close> inside \<open>if (collectingData)\<close> only:
  on the initial state a sample with gyroscope-Y 0, which lies in the end band, leaves
  the counter at 0.
\<close>

theorem end_band_counter_idle_counterexample:
  "\<not> (inThresholdCounter (snd (processDataV2 source_config (0, 0, 0) (0, 0, 0) initial_segmenter)) =
        (if inEndBand source_config 0 then inThresholdCounter initial_segmenter + 1 else 0))"
  by (simp add: source_config_def initial_segmenter_def inEndBand_def)

text \<open>
  Claim C7, amended. Every step, whatever the state, increments the above-threshold
  counter when \<open>|gyroY|\<close> exceeds the threshold and resets it otherwise. The end-band
  counter is incremented or reset according to the end band on a step that starts
  collecting, and on a step that opens a capture, where it counts from 0; a step that
  starts idle and opens no capture leaves it as it was, has no effect and changes
  nothing but the above-threshold counter.
\<close>

theorem counters_per_step:
  "aboveThresholdCounter (snd (processDataV2 cfg (fst i) (snd i) s)) =
     (if aboveThreshold cfg (gyroY_of i) then aboveThresholdCounter s + 1 else 0) \<and>
   inThresholdCounter (snd (processDataV2 cfg (fst i) (snd i) s)) =
     (if collectingData s
      then (if inEndBand cfg (gyroY_of i) then inThresholdCounter s + 1 else 0)
      else if startThresholdCount cfg \<le>
                (if aboveThreshold cfg (gyroY_of i) then aboveThresholdCounter s + 1 else 0)
           then (if inEndBand cfg (gyroY_of i) then 1 else 0)
           else inThresholdCounter s) \<and>
   (\<not> collectingData s \<and>
    (if aboveThreshold cfg (gyroY_of i) then aboveThresholdCounter s + 1 else 0)
       < startThresholdCount cfg \<longrightarrow>
      processDataV2 cfg (fst i) (snd i) s =
        ([], s\<lparr>aboveThresholdCounter :=
                 (if aboveThreshold cfg (gyroY_of i) then aboveThresholdCounter s + 1 else 0)\<rparr>))"
proof (intro conjI)
  show "aboveThresholdCounter (snd (processDataV2 cfg (fst i) (snd i) s)) =
     (if aboveThreshold cfg (gyroY_of i) then aboveThresholdCounter s + 1 else 0)"
    by (simp add: step_above_counter above_next_def)
  show "inThresholdCounter (snd (processDataV2 cfg (fst i) (snd i) s)) =
     (if collectingData s
      then (if inEndBand cfg (gyroY_of i) then inThresholdCounter s + 1 else 0)
      else if startThresholdCount cfg \<le>
                (if aboveThreshold cfg (gyroY_of i) then aboveThresholdCounter s + 1 else 0)
           then (if inEndBand cfg (gyroY_of i) then 1 else 0)
           else inThresholdCounter s)"
    unfolding step_band_counter by (simp add: band_next_def above_next_def opened_fields)
  show "\<not> collectingData s \<and>
    (if aboveThreshold cfg (gyroY_of i) then aboveThresholdCounter s + 1 else 0)
       < startThresholdCount cfg \<longrightarrow>
      processDataV2 cfg (fst i) (snd i) s =
        ([], s\<lparr>aboveThresholdCounter :=
                 (if aboveThreshold cfg (gyroY_of i) then aboveThresholdCounter s + 1 else 0)\<rparr>)"
  proof
    assume h: "\<not> collectingData s \<and>
      (if aboveThreshold cfg (gyroY_of i) then aboveThresholdCounter s + 1 else 0)
         < startThresholdCount cfg"
    then have idle: "\<not> collectingData s"
      and low: "above_next cfg (gyroY_of i) s < startThresholdCount cfg"
      by (simp_all add: above_next_def)
    from step_idle_stays [OF idle low] show "processDataV2 cfg (fst i) (snd i) s =
        ([], s\<lparr>aboveThresholdCounter :=
                 (if aboveThreshold cfg (gyroY_of i) then aboveThresholdCounter s + 1 else 0)\<rparr>)"
      by (simp add: above_next_def)
  qed
qed

theorem counters_per_step_witness:
  "\<not> collectingData initial_segmenter \<and>
   processDataV2 source_config (3, 0, 0) (0, 1/2, 0) initial_segmenter = ([], initial_segmenter) \<and>
   inThresholdCounter (snd (processDataV2 source_config (3, 0, 0) (0, 1/2, 0) initial_segmenter)) = 0 \<and>
   inThresholdCounter (snd (processDataV2 source_config (1, 0, 0) (0, 2, 0) initial_segmenter)) = 0 \<and>
   aboveThresholdCounter (snd (processDataV2 source_config (1, 0, 0) (0, 2, 0) initial_segmenter)) = 1"
  using counters_per_step [of source_config "((3, 0, 0), (0, 1/2, 0))" initial_segmenter]
    counters_per_step [of source_config "((1, 0, 0), (0, 2, 0))" initial_segmenter]
  by (simp add: source_config_def initial_segmenter_def aboveThreshold_def inEndBand_def
      gyroY_of_def)

subsection \<open>The end of a capture\<close>

lemma trailing_run_le_length: "trailing_run P vs \<le> length vs"
  unfolding trailing_run_def using length_takeWhile_le [of P "rev vs"] by simp

lemma trailing_run_last_n:
  assumes "n \<le> trailing_run P vs"
  shows "n \<le> length vs \<and> (\<forall>v \<in> set (last_n n vs). P v)"
proof
  from assms trailing_run_le_length [of P vs] show n: "n \<le> length vs" by simp
  have "rev (last_n n vs) = take n (rev vs)"
    using n by (simp add: last_n_def rev_drop)
  also have "\<dots> = take n (takeWhile P (rev vs) @ dropWhile P (rev vs))" by simp
  also have "\<dots> = take n (takeWhile P (rev vs))"
    using assms unfolding trailing_run_def by (simp only: take_append) simp
  finally have "set (last_n n vs) \<subseteq> set (takeWhile P (rev vs))"
    by (metis set_rev set_take_subset)
  then show "\<forall>v \<in> set (last_n n vs). P v"
    by (meson set_takeWhileD subsetD)
qed

lemma above_excludes_band:
  assumes "- gyroscopeYThreshold cfg \<le> anomalyEndThresholdLow cfg"
    and "anomalyEndThresholdHigh cfg \<le> gyroscopeYThreshold cfg"
    and "aboveThreshold cfg gy"
  shows "\<not> inEndBand cfg gy"
  using assms by (auto simp: aboveThreshold_def inEndBand_def)

lemma step_collecting_above:
  assumes "collectingData t" and "aboveThreshold cfg (gyroY_of i)"
    and "- gyroscopeYThreshold cfg \<le> anomalyEndThresholdLow cfg"
    and "anomalyEndThresholdHigh cfg \<le> gyroscopeYThreshold cfg"
    and "1 \<le> counterThreshold cfg"
  shows "processDataV2 cfg (fst i) (snd i) t =
           ([], t\<lparr>accSequence := accSequence t @ [accX_of i],
                  gyroSequence := gyroSequence t @ [- gyroY_of i],
                  inThresholdCounter := 0,
                  aboveThresholdCounter := aboveThresholdCounter t + 1\<rparr>)"
proof -
  from above_excludes_band [OF assms(3,4,2)] have "band_next cfg (gyroY_of i) t = 0"
    by (simp add: band_next_def)
  with assms(2,5) show ?thesis
    by (simp add: step_collecting [OF assms(1)] above_next_def)
qed

text \<open>
  Claim C8. Take an idle segmenter and samples \<open>cs\<close> the first of which opens a capture
  that stays open after every sample but the last. If the segmenter is still collecting
  after \<open>cs\<close>, the two sequences hold every sample of \<open>cs\<close> (negated gyroscope-Y,
  accelerometer-X), in order. If it is idle after \<open>cs\<close>, then \<open>cs\<close> has at least
  \<open>counterThreshold\<close> samples and the last \<open>counterThreshold\<close> of them lie in the end
  band. When the end band lies within the excursion threshold and
  \<open>counterThreshold \<ge> 1\<close>, as in the source, a last sample above the threshold leaves
  the segmenter collecting, and from any collecting state \<open>t\<close> a sample above the
  threshold is appended to both sequences, resets the end-band counter and has no
  other effect.
\<close>

theorem collection_ends_only_in_band:
  assumes idle: "\<not> collectingData s"
    and nonempty: "cs \<noteq> []"
    and opens: "LogAnomalyFound \<in> set (effects_of cfg (hd cs) s)"
    and stays: "\<forall>k. 0 < k \<and> k < length cs \<longrightarrow>
                  collectingData (segmenter_after cfg (take k cs) s)"
  shows "(collectingData (segmenter_after cfg cs s) \<longrightarrow>
            gyroSequence (segmenter_after cfg cs s) = inverted_gyroY cs \<and>
            accSequence (segmenter_after cfg cs s) = collected_accX cs) \<and>
         (\<not> collectingData (segmenter_after cfg cs s) \<longrightarrow>
            counterThreshold cfg \<le> length cs \<and>
            (\<forall>i \<in> set (last_n (counterThreshold cfg) cs). inEndBand cfg (gyroY_of i))) \<and>
         (aboveThreshold cfg (gyroY_of (last cs)) \<and>
          - gyroscopeYThreshold cfg \<le> anomalyEndThresholdLow cfg \<and>
          anomalyEndThresholdHigh cfg \<le> gyroscopeYThreshold cfg \<and>
          1 \<le> counterThreshold cfg \<longrightarrow>
            collectingData (segmenter_after cfg cs s)) \<and>
         (collectingData t \<and> aboveThreshold cfg (gyroY_of i) \<and>
          - gyroscopeYThreshold cfg \<le> anomalyEndThresholdLow cfg \<and>
          anomalyEndThresholdHigh cfg \<le> gyroscopeYThreshold cfg \<and>
          1 \<le> counterThreshold cfg \<longrightarrow>
            processDataV2 cfg (fst i) (snd i) t =
              ([], t\<lparr>accSequence := accSequence t @ [accX_of i],
                     gyroSequence := gyroSequence t @ [- gyroY_of i],
                     inThresholdCounter := 0,
                     aboveThresholdCounter := aboveThresholdCounter t + 1\<rparr>))"
proof -
  let ?k = "length cs - 1"
  let ?t = "segmenter_after cfg (butlast cs) (opened s)"
  let ?i = "last cs"
  from nonempty have k: "?k < length cs" by simp
  from nonempty have bl: "take ?k cs = butlast cs" and la: "cs ! ?k = last cs"
    by (simp_all add: butlast_conv_take last_conv_nth)
  from nonempty have cs: "butlast cs @ [last cs] = cs" by simp
  note c = capture_step [OF idle opens stays k, unfolded bl la]
  from c have t: "collectingData ?t" "gyroSequence ?t = inverted_gyroY (butlast cs)"
    "accSequence ?t = collected_accX (butlast cs)"
    "inThresholdCounter ?t = trailing_run (\<lambda>i. inEndBand cfg (gyroY_of i)) (butlast cs)"
    by simp_all
  have after: "segmenter_after cfg cs s = snd (processDataV2 cfg (fst ?i) (snd ?i) ?t)"
    using segmenter_after_snoc [of cfg "butlast cs" "last cs" s] cs c by simp
  have g: "inverted_gyroY (butlast cs) @ [- gyroY_of ?i] = inverted_gyroY cs"
    using cs by (metis (no_types, lifting) inverted_gyroY_def list.simps(8,9) map_append)
  have a: "collected_accX (butlast cs) @ [accX_of ?i] = collected_accX cs"
    using cs by (metis (no_types, lifting) collected_accX_def list.simps(8,9) map_append)
  have p1: "collectingData (segmenter_after cfg cs s) \<longrightarrow>
            gyroSequence (segmenter_after cfg cs s) = inverted_gyroY cs \<and>
            accSequence (segmenter_after cfg cs s) = collected_accX cs"
  proof
    assume "collectingData (segmenter_after cfg cs s)"
    then have "collectingData (snd (processDataV2 cfg (fst ?i) (snd ?i) ?t))"
      by (simp add: after)
    from step_collecting_open [OF t(1) this]
    show "gyroSequence (segmenter_after cfg cs s) = inverted_gyroY cs \<and>
          accSequence (segmenter_after cfg cs s) = collected_accX cs"
      unfolding after by (simp add: t g a)
  qed
  have p2: "\<not> collectingData (segmenter_after cfg cs s) \<longrightarrow>
            counterThreshold cfg \<le> length cs \<and>
            (\<forall>i \<in> set (last_n (counterThreshold cfg) cs). inEndBand cfg (gyroY_of i))"
  proof
    assume "\<not> collectingData (segmenter_after cfg cs s)"
    then have "\<not> collectingData (snd (processDataV2 cfg (fst ?i) (snd ?i) ?t))"
      by (simp add: after)
    from step_collecting_closed [OF t(1) this]
    have "counterThreshold cfg \<le> band_next cfg (gyroY_of ?i) ?t" by simp
    then have "counterThreshold cfg \<le>
        trailing_run (\<lambda>i. inEndBand cfg (gyroY_of i)) (butlast cs @ [?i])"
      using band_next_trailing [OF t(4), of ?i] by simp
    then have "counterThreshold cfg \<le> trailing_run (\<lambda>i. inEndBand cfg (gyroY_of i)) cs"
      unfolding cs .
    from trailing_run_last_n [OF this]
    show "counterThreshold cfg \<le> length cs \<and>
          (\<forall>i \<in> set (last_n (counterThreshold cfg) cs). inEndBand cfg (gyroY_of i))" .
  qed
  have p3: "aboveThreshold cfg (gyroY_of ?i) \<and>
          - gyroscopeYThreshold cfg \<le> anomalyEndThresholdLow cfg \<and>
          anomalyEndThresholdHigh cfg \<le> gyroscopeYThreshold cfg \<and>
          1 \<le> counterThreshold cfg \<longrightarrow>
            collectingData (segmenter_after cfg cs s)"
  proof
    assume h: "aboveThreshold cfg (gyroY_of ?i) \<and>
          - gyroscopeYThreshold cfg \<le> anomalyEndThresholdLow cfg \<and>
          anomalyEndThresholdHigh cfg \<le> gyroscopeYThreshold cfg \<and>
          1 \<le> counterThreshold cfg"
    then have "processDataV2 cfg (fst ?i) (snd ?i) ?t =
           ([], ?t\<lparr>accSequence := accSequence ?t @ [accX_of ?i],
                  gyroSequence := gyroSequence ?t @ [- gyroY_of ?i],
                  inThresholdCounter := 0,
                  aboveThresholdCounter := aboveThresholdCounter ?t + 1\<rparr>)"
      using step_collecting_above [OF t(1), of cfg ?i] by blast
    with t(1) show "collectingData (segmenter_after cfg cs s)"
      unfolding after by simp
  qed
  have p4: "collectingData t \<and> aboveThreshold cfg (gyroY_of i) \<and>
          - gyroscopeYThreshold cfg \<le> anomalyEndThresholdLow cfg \<and>
          anomalyEndThresholdHigh cfg \<le> gyroscopeYThreshold cfg \<and>
          1 \<le> counterThreshold cfg \<longrightarrow>
            processDataV2 cfg (fst i) (snd i) t =
              ([], t\<lparr>accSequence := accSequence t @ [accX_of i],
                     gyroSequence := gyroSequence t @ [- gyroY_of i],
                     inThresholdCounter := 0,
                     aboveThresholdCounter := aboveThresholdCounter t + 1\<rparr>)"
    using step_collecting_above [of t cfg i] by blast
  from p1 p2 p3 p4 show ?thesis by (intro conjI)
qed


theorem collection_ends_only_in_band_witness:
  "\<not> collectingData initial_segmenter \<and>
   collectingData (segmenter_after source_config [((1, 0, 0), (0, 2, 0)), ((3, 0, 0), (0, 1/2, 0)), ((1, 0, 0), (0, 2, 0))] initial_segmenter) \<and>
   gyroSequence (segmenter_after source_config [((1, 0, 0), (0, 2, 0)), ((3, 0, 0), (0, 1/2, 0)), ((1, 0, 0), (0, 2, 0))] initial_segmenter) = [-2, -1/2, -2] \<and>
   accSequence (segmenter_after source_config [((1, 0, 0), (0, 2, 0)), ((3, 0, 0), (0, 1/2, 0)), ((1, 0, 0), (0, 2, 0))] initial_segmenter) = [1, 3, 1] \<and>
   \<not> collectingData (segmenter_after source_config
        [((1, 0, 0), (0, 2, 0)), ((3, 0, 0), (0, 1/2, 0)), ((3, 0, 0), (0, 1/2, 0)), ((3, 0, 0), (0, 1/2, 0)), ((3, 0, 0), (0, 1/2, 0)), ((3, 0, 0), (0, 1/2, 0))] initial_segmenter) \<and>
   inEndBand source_config (gyroY_of ((3, 0, 0), (0, 1/2, 0))) \<and>
   counterThreshold source_config \<le> 6"
proof -
  let ?a = "[((1, 0, 0), (0, 2, 0)), ((3, 0, 0), (0, 1/2, 0)), ((1, 0, 0), (0, 2, 0))] :: sample list"
  let ?b = "[((1, 0, 0), (0, 2, 0)), ((3, 0, 0), (0, 1/2, 0)), ((3, 0, 0), (0, 1/2, 0)), ((3, 0, 0), (0, 1/2, 0)), ((3, 0, 0), (0, 1/2, 0)), ((3, 0, 0), (0, 1/2, 0))] :: sample list"
  let ?t = "segmenter_after source_config [((1, 0, 0), (0, 2, 0))] initial_segmenter"
  have idle: "\<not> collectingData initial_segmenter"
    by (simp add: initial_segmenter_def)
  have na: "?a \<noteq> []" and nb: "?b \<noteq> []" by simp_all
  have oa: "LogAnomalyFound \<in> set (effects_of source_config (hd ?a) initial_segmenter)"
    by (simp add: effects_of_def source_config_def initial_segmenter_def)
  have ob: "LogAnomalyFound \<in> set (effects_of source_config (hd ?b) initial_segmenter)"
    by (simp add: effects_of_def source_config_def initial_segmenter_def)
  have "collecting_throughout source_config (butlast ?a) initial_segmenter"
    by (simp add: source_config_def initial_segmenter_def)
  then have sa: "\<forall>k. 0 < k \<and> k < length ?a \<longrightarrow>
      collectingData (segmenter_after source_config (take k ?a) initial_segmenter)"
    by (rule stays_from_throughout)
  have "collecting_throughout source_config (butlast ?b) initial_segmenter"
    by (simp add: source_config_def initial_segmenter_def)
  then have sb: "\<forall>k. 0 < k \<and> k < length ?b \<longrightarrow>
      collectingData (segmenter_after source_config (take k ?b) initial_segmenter)"
    by (rule stays_from_throughout)
  have cb: "\<not> collectingData (segmenter_after source_config ?b initial_segmenter)"
    by (simp add: segmenter_after_def source_config_def initial_segmenter_def)
  have cfg: "aboveThreshold source_config 2" "counterThreshold source_config = 5"
    "gyroscopeYThreshold source_config = 3/2" "anomalyEndThresholdLow source_config = -1"
    "anomalyEndThresholdHigh source_config = 1" "inEndBand source_config (1/2)"
    by (simp_all add: source_config_def aboveThreshold_def inEndBand_def)
  from collection_ends_only_in_band [OF idle na oa sa, of ?t "((1, 0, 0), (0, 2, 0))"]
    collection_ends_only_in_band [OF idle nb ob sb, of ?t "((1, 0, 0), (0, 2, 0))"] idle cb
  show ?thesis
    by (simp add: cfg gyroY_of_def accX_of_def inverted_gyroY_def collected_accX_def last_n_def)
qed

subsection \<open>The start of a capture\<close>

lemma has_run_append: "has_run n P vs \<Longrightarrow> has_run n P (vs @ us)"
proof -
  assume "has_run n P vs"
  then obtain pre run post where "vs = pre @ run @ post" "length run = n" "list_all P run"
    unfolding has_run_def by blast
  then have "vs @ us = pre @ run @ (post @ us) \<and> length run = n \<and> list_all P run" by simp
  then show ?thesis unfolding has_run_def by blast
qed

lemma has_run_take: "has_run n P (take k vs) \<Longrightarrow> has_run n P vs"
  using has_run_append [of n P "take k vs" "drop k vs"] by simp

lemma has_run_zero: "has_run 0 P vs"
  unfolding has_run_def by (intro exI [of _ "[]"] exI [of _ vs]) simp

lemma has_run_elem:
  assumes "has_run n P vs" and "0 < n"
  shows "\<exists>v \<in> set vs. P v"
proof -
  from assms(1) obtain pre run post where r: "vs = pre @ run @ post" "length run = n"
    "list_all P run"
    unfolding has_run_def by blast
  from r(2) assms(2) obtain v rest where "run = v # rest" by (cases run) auto
  with r show ?thesis by auto
qed

lemma has_run_whole:
  assumes "has_run (length vs) P vs"
  shows "list_all P vs"
proof -
  from assms obtain pre run post where r: "vs = pre @ run @ post" "length run = length vs"
    "list_all P run"
    unfolding has_run_def by blast
  from r(1) have "length vs = length pre + length run + length post" by simp
  with r(2) have "pre = [] \<and> post = []" by simp
  with r show ?thesis by simp
qed

lemma trailing_has_run:
  assumes "n \<le> trailing_run P vs"
  shows "has_run n P vs"
proof -
  from trailing_run_last_n [OF assms]
  have n: "n \<le> length vs" and p: "list_all P (last_n n vs)"
    by (simp_all add: list_all_iff)
  have "vs = take (length vs - n) vs @ last_n n vs @ []"
    by (simp add: last_n_def)
  moreover from n have "length (last_n n vs) = n" by (simp add: last_n_def)
  ultimately show ?thesis
    unfolding has_run_def using p by blast
qed

lemma last_n_trailing:
  assumes "n \<le> length vs" and "list_all P (last_n n vs)"
  shows "n \<le> trailing_run P vs"
proof -
  have "rev vs = rev (last_n n vs) @ rev (take (length vs - n) vs)"
    by (metis append_take_drop_id last_n_def rev_append)
  moreover from assms(2) have "\<forall>v \<in> set (rev (last_n n vs)). P v"
    by (simp add: list_all_iff)
  ultimately have "takeWhile P (rev vs) =
      rev (last_n n vs) @ takeWhile P (rev (take (length vs - n) vs))"
    by (metis takeWhile_append2)
  then have "length (last_n n vs) \<le> trailing_run P vs"
    by (simp add: trailing_run_def)
  with assms(1) show ?thesis by (simp add: last_n_def)
qed

lemma above_counter_trailing:
  assumes "aboveThresholdCounter s = 0"
  shows "aboveThresholdCounter (segmenter_after cfg ins s) =
           trailing_run (\<lambda>i. aboveThreshold cfg (gyroY_of i)) ins"
proof (induction ins rule: rev_induct)
  case Nil
  from assms show ?case by (simp add: segmenter_after_Nil trailing_run_def)
next
  case (snoc i ins)
  then show ?case
    by (simp add: segmenter_after_snoc step_above_counter above_next_def trailing_run_snoc)
qed

lemma above_next_trailing:
  assumes "aboveThresholdCounter s = 0"
  shows "above_next cfg (gyroY_of i) (segmenter_after cfg ins s) =
           trailing_run (\<lambda>i. aboveThreshold cfg (gyroY_of i)) (ins @ [i])"
  using above_counter_trailing [OF assms, of cfg ins]
  by (simp add: above_next_def trailing_run_snoc)

lemma idle_until_run:
  assumes "\<not> collectingData s" and "aboveThresholdCounter s = 0"
    and "\<not> has_run (startThresholdCount cfg) (\<lambda>i. aboveThreshold cfg (gyroY_of i)) ins"
  shows "\<not> collectingData (segmenter_after cfg ins s)"
  using assms(3)
proof (induction ins rule: rev_induct)
  case Nil
  from assms(1) show ?case by (simp add: segmenter_after_Nil)
next
  case (snoc i ins)
  let ?t = "segmenter_after cfg ins s"
  from snoc.prems have "\<not> has_run (startThresholdCount cfg)
      (\<lambda>i. aboveThreshold cfg (gyroY_of i)) ins"
    using has_run_append by blast
  with snoc.IH have idle: "\<not> collectingData ?t" by simp
  have "above_next cfg (gyroY_of i) ?t < startThresholdCount cfg"
  proof (rule ccontr)
    assume "\<not> above_next cfg (gyroY_of i) ?t < startThresholdCount cfg"
    then have "startThresholdCount cfg \<le>
        trailing_run (\<lambda>i. aboveThreshold cfg (gyroY_of i)) (ins @ [i])"
      by (simp add: above_next_trailing [OF assms(2)])
    from trailing_has_run [OF this] snoc.prems show False by simp
  qed
  from step_idle_stays [OF idle this] idle show ?case
    by (simp add: segmenter_after_snoc)
qed

lemma idle_step_silent:
  assumes idle: "\<not> collectingData s" and zero: "aboveThresholdCounter s = 0"
    and norun: "\<not> has_run (startThresholdCount cfg) (\<lambda>i. aboveThreshold cfg (gyroY_of i)) ins"
    and k: "k < length ins"
  shows "effects_of cfg (ins ! k) (segmenter_after cfg (take k ins) s) = []"
proof -
  let ?t = "segmenter_after cfg (take k ins) s"
  from k have tk: "take (Suc k) ins = take k ins @ [ins ! k]"
    by (simp add: take_Suc_conv_app_nth)
  from norun have n1: "\<not> has_run (startThresholdCount cfg)
      (\<lambda>i. aboveThreshold cfg (gyroY_of i)) (take (Suc k) ins)"
    using has_run_take by blast
  then have "\<not> has_run (startThresholdCount cfg)
      (\<lambda>i. aboveThreshold cfg (gyroY_of i)) (take k ins)"
    unfolding tk using has_run_append by blast
  from idle_until_run [OF idle zero this] have t: "\<not> collectingData ?t" .
  have "above_next cfg (gyroY_of (ins ! k)) ?t < startThresholdCount cfg"
  proof (rule ccontr)
    assume "\<not> above_next cfg (gyroY_of (ins ! k)) ?t < startThresholdCount cfg"
    then have "startThresholdCount cfg \<le>
        trailing_run (\<lambda>i. aboveThreshold cfg (gyroY_of i)) (take k ins @ [ins ! k])"
      by (simp add: above_next_trailing [OF zero])
    from trailing_has_run [OF this] n1 show False unfolding tk by simp
  qed
  from step_idle_stays [OF t this] show ?thesis by (simp add: effects_of_def)
qed

lemma short_run_then_band:
  assumes "1 \<le> n" and "length run = n - 1" and "\<not> P b"
  shows "\<not> has_run n P (run @ [b])"
proof
  assume h: "has_run n P (run @ [b])"
  from assms(1,2) have "length (run @ [b]) = n" by simp
  with h have "has_run (length (run @ [b])) P (run @ [b])" by simp
  from has_run_whole [OF this] assms(3) show False by simp
qed

lemma opens_on_run:
  assumes idle: "\<not> collectingData s" and zero: "aboveThresholdCounter s = 0"
    and norun: "\<not> has_run (startThresholdCount cfg) (\<lambda>i. aboveThreshold cfg (gyroY_of i)) ins"
    and len: "startThresholdCount cfg \<le> length (ins @ [i])"
    and run: "list_all (\<lambda>i. aboveThreshold cfg (gyroY_of i))
                (last_n (startThresholdCount cfg) (ins @ [i]))"
  shows "\<not> collectingData (segmenter_after cfg ins s) \<and>
         above_next cfg (gyroY_of i) (segmenter_after cfg ins s) = startThresholdCount cfg"
proof
  let ?P = "\<lambda>i. aboveThreshold cfg (gyroY_of i)"
  let ?n = "startThresholdCount cfg"
  show "\<not> collectingData (segmenter_after cfg ins s)"
    using idle zero norun by (rule idle_until_run)
  from last_n_trailing [OF len run] have ge: "?n \<le> trailing_run ?P (ins @ [i])" .
  have "\<not> ?n \<le> trailing_run ?P ins"
    using trailing_has_run [of ?n ?P ins] norun by blast
  moreover have "?n \<noteq> 0"
  proof
    assume "?n = 0"
    with has_run_zero [of ?P ins] have "has_run ?n ?P ins" by simp
    with norun show False by simp
  qed
  ultimately have "trailing_run ?P (ins @ [i]) = ?n"
    using ge by (auto simp: trailing_run_snoc split: if_splits)
  then show "above_next cfg (gyroY_of i) (segmenter_after cfg ins s) = ?n"
    by (simp add: above_next_trailing [OF zero])
qed

lemma opening_step_state:
  assumes "\<not> collectingData t" and "startThresholdCount cfg \<le> above_next cfg (gyroY_of i) t"
    and "1 < counterThreshold cfg"
  shows "snd (processDataV2 cfg (fst i) (snd i) t) =
           \<lparr>accSequence = [accX_of i], gyroSequence = [- gyroY_of i], collectingData = True,
            inThresholdCounter = (if inEndBand cfg (gyroY_of i) then 1 else 0),
            aboveThresholdCounter = above_next cfg (gyroY_of i) t\<rparr>"
proof -
  have c: "collectingData (opened t)" by (simp add: opened_fields)
  have b: "band_next cfg (gyroY_of i) (opened t) = (if inEndBand cfg (gyroY_of i) then 1 else 0)"
    by (simp add: band_next_def opened_fields)
  with assms(3) have "\<not> counterThreshold cfg \<le> band_next cfg (gyroY_of i) (opened t)"
    by simp
  then have st: "snd (processDataV2 cfg (fst i) (snd i) t) =
      (opened t)\<lparr>accSequence := accSequence (opened t) @ [accX_of i],
                 gyroSequence := gyroSequence (opened t) @ [- gyroY_of i],
                 inThresholdCounter := band_next cfg (gyroY_of i) (opened t),
                 aboveThresholdCounter := above_next cfg (gyroY_of i) (opened t)\<rparr>"
    by (simp add: step_idle_opens [OF assms(1,2)] step_collecting [OF c])
  show ?thesis
    unfolding st
    by (rule segmenter.equality) (simp_all add: opened_fields b above_next_opened)
qed

text \<open>
  Claim C3. Start from an idle segmenter whose above-threshold counter is 0, as the
  initial one. On samples without \<open>startThresholdCount\<close> consecutive ones above the
  threshold the segmenter stays idle and no step has an effect; in particular, when the
  end band lies within the threshold, \<open>startThresholdCount - 1\<close> samples above the
  threshold followed by one in the end band leave it idle. If the samples \<open>ins\<close> have no
  such run and the sample \<open>i\<close> completes one, the step on \<open>i\<close> logs the start of a
  capture, and (when \<open>counterThreshold > 1\<close>, so that the capture cannot end on the
  step that opens it) leaves the segmenter collecting, with the sequences cleared and
  holding just this sample, and the end-band counter reset and counting just this
  sample.
\<close>

theorem capture_opens_on_run:
  assumes idle: "\<not> collectingData s" and zero: "aboveThresholdCounter s = 0"
  shows "(\<not> has_run (startThresholdCount cfg) (\<lambda>i. aboveThreshold cfg (gyroY_of i)) ins \<longrightarrow>
            \<not> collectingData (segmenter_after cfg ins s) \<and>
            (\<forall>k < length ins.
               effects_of cfg (ins ! k) (segmenter_after cfg (take k ins) s) = [])) \<and>
         (1 \<le> startThresholdCount cfg \<and>
          - gyroscopeYThreshold cfg \<le> anomalyEndThresholdLow cfg \<and>
          anomalyEndThresholdHigh cfg \<le> gyroscopeYThreshold cfg \<and>
          length run = startThresholdCount cfg - 1 \<and>
          list_all (\<lambda>i. aboveThreshold cfg (gyroY_of i)) run \<and>
          inEndBand cfg (gyroY_of b) \<longrightarrow>
            \<not> collectingData (segmenter_after cfg (run @ [b]) s)) \<and>
         (\<not> has_run (startThresholdCount cfg) (\<lambda>i. aboveThreshold cfg (gyroY_of i)) ins \<and>
          startThresholdCount cfg \<le> length (ins @ [i]) \<and>
          list_all (\<lambda>i. aboveThreshold cfg (gyroY_of i))
            (last_n (startThresholdCount cfg) (ins @ [i])) \<longrightarrow>
            LogAnomalyFound \<in> set (effects_of cfg i (segmenter_after cfg ins s)) \<and>
            (1 < counterThreshold cfg \<longrightarrow>
               segmenter_after cfg (ins @ [i]) s =
                 \<lparr>accSequence = [accX_of i], gyroSequence = [- gyroY_of i],
                  collectingData = True,
                  inThresholdCounter = (if inEndBand cfg (gyroY_of i) then 1 else 0),
                  aboveThresholdCounter = startThresholdCount cfg\<rparr>))"
proof (intro conjI impI allI)
  assume "\<not> has_run (startThresholdCount cfg) (\<lambda>i. aboveThreshold cfg (gyroY_of i)) ins"
  with idle zero show "\<not> collectingData (segmenter_after cfg ins s)"
    by (rule idle_until_run)
next
  fix k
  assume "\<not> has_run (startThresholdCount cfg) (\<lambda>i. aboveThreshold cfg (gyroY_of i)) ins"
    and "k < length ins"
  with idle zero show "effects_of cfg (ins ! k) (segmenter_after cfg (take k ins) s) = []"
    by (rule idle_step_silent)
next
  assume h: "1 \<le> startThresholdCount cfg \<and>
          - gyroscopeYThreshold cfg \<le> anomalyEndThresholdLow cfg \<and>
          anomalyEndThresholdHigh cfg \<le> gyroscopeYThreshold cfg \<and>
          length run = startThresholdCount cfg - 1 \<and>
          list_all (\<lambda>i. aboveThreshold cfg (gyroY_of i)) run \<and>
          inEndBand cfg (gyroY_of b)"
  then have "\<not> aboveThreshold cfg (gyroY_of b)"
    using above_excludes_band [of cfg "gyroY_of b"] by blast
  with h have "\<not> has_run (startThresholdCount cfg)
      (\<lambda>i. aboveThreshold cfg (gyroY_of i)) (run @ [b])"
    using short_run_then_band [of "startThresholdCount cfg" run
        "\<lambda>i. aboveThreshold cfg (gyroY_of i)" b] by blast
  with idle zero show "\<not> collectingData (segmenter_after cfg (run @ [b]) s)"
    by (rule idle_until_run)
next
  assume h: "\<not> has_run (startThresholdCount cfg) (\<lambda>i. aboveThreshold cfg (gyroY_of i)) ins \<and>
          startThresholdCount cfg \<le> length (ins @ [i]) \<and>
          list_all (\<lambda>i. aboveThreshold cfg (gyroY_of i))
            (last_n (startThresholdCount cfg) (ins @ [i]))"
  from opens_on_run [OF idle zero] h
  have t: "\<not> collectingData (segmenter_after cfg ins s)"
    and a: "above_next cfg (gyroY_of i) (segmenter_after cfg ins s) = startThresholdCount cfg"
    by blast+
  from a show "LogAnomalyFound \<in> set (effects_of cfg i (segmenter_after cfg ins s))"
    by (simp add: opens_iff_logged [OF t])
  assume "1 < counterThreshold cfg"
  with opening_step_state [OF t, of cfg i] a
  show "segmenter_after cfg (ins @ [i]) s =
                 \<lparr>accSequence = [accX_of i], gyroSequence = [- gyroY_of i],
                  collectingData = True,
                  inThresholdCounter = (if inEndBand cfg (gyroY_of i) then 1 else 0),
                  aboveThresholdCounter = startThresholdCount cfg\<rparr>"
    by (simp add: segmenter_after_snoc)
qed


theorem capture_opens_on_run_witness:
  "\<not> collectingData initial_segmenter \<and> aboveThresholdCounter initial_segmenter = 0 \<and>
   \<not> collectingData (segmenter_after source_config [((3, 0, 0), (0, 1/2, 0)), ((3, 0, 0), (0, 1/2, 0))] initial_segmenter) \<and>
   segmenter_after source_config [((3, 0, 0), (0, 1/2, 0)), ((3, 0, 0), (0, 1/2, 0)), ((1, 0, 0), (0, 2, 0))] initial_segmenter =
     \<lparr>accSequence = [1], gyroSequence = [-2], collectingData = True,
      inThresholdCounter = 0, aboveThresholdCounter = 1\<rparr> \<and>
   \<not> collectingData (segmenter_after (source_config\<lparr>startThresholdCount := 3\<rparr>)
        [((1, 0, 0), (0, 2, 0)), ((1, 0, 0), (0, 2, 0)), ((3, 0, 0), (0, 1/2, 0))] initial_segmenter)"
proof -
  let ?P = "\<lambda>i. aboveThreshold source_config (gyroY_of i)"
  have idle: "\<not> collectingData initial_segmenter"
    and zero: "aboveThresholdCounter initial_segmenter = 0"
    by (simp_all add: initial_segmenter_def)
  have cfg: "startThresholdCount source_config = 1" "counterThreshold source_config = 5"
    "gyroscopeYThreshold source_config = 3/2" "anomalyEndThresholdLow source_config = -1"
    "anomalyEndThresholdHigh source_config = 1"
    by (simp_all add: source_config_def)
  have band: "inEndBand source_config (1/2)" "\<not> aboveThreshold source_config (1/2)"
    "aboveThreshold source_config 2" "\<not> inEndBand source_config 2"
    by (simp_all add: source_config_def aboveThreshold_def inEndBand_def)
  have norun: "\<not> has_run (startThresholdCount source_config) ?P [((3, 0, 0), (0, 1/2, 0)), ((3, 0, 0), (0, 1/2, 0))]"
  proof
    assume "has_run (startThresholdCount source_config) ?P [((3, 0, 0), (0, 1/2, 0)), ((3, 0, 0), (0, 1/2, 0))]"
    from has_run_elem [OF this] have "\<exists>v \<in> set [((3, 0, 0), (0, 1/2, 0)), ((3, 0, 0), (0, 1/2, 0))]. ?P v"
      by (simp add: cfg)
    then show False by (simp add: gyroY_of_def band)
  qed
  from capture_opens_on_run [OF idle zero, of source_config "[((3, 0, 0), (0, 1/2, 0)), ((3, 0, 0), (0, 1/2, 0))]" "[]" "((3, 0, 0), (0, 1/2, 0))" "((1, 0, 0), (0, 2, 0))"]
    capture_opens_on_run [OF idle zero, of "source_config\<lparr>startThresholdCount := 3\<rparr>" "[]"
      "[((1, 0, 0), (0, 2, 0)), ((1, 0, 0), (0, 2, 0))]" "((3, 0, 0), (0, 1/2, 0))" "((1, 0, 0), (0, 2, 0))"]
    norun idle zero
  show ?thesis
    by (simp add: cfg band gyroY_of_def accX_of_def last_n_def aboveThreshold_def inEndBand_def)
qed

end
